theory Spec2Isabelle
  imports Main "HOL-Library.Multiset" "HOL-Library.Sublist"
begin

section \<open>The program: a pool of workers behind one progress bar\<close>

text \<open>
  The source is one Python module, \<^verbatim>\<open>main.py\<close>, with two functions:
  \<^verbatim>\<open>_worker(index, work, src, shared, lock, length, start, col)\<close>, the body of each
  child process, and \<^verbatim>\<open>parallel(work, data, process_cnt)\<close>, which fills the queue
  \<^verbatim>\<open>src\<close>, puts \<open>0\<close> into the one-cell queue \<^verbatim>\<open>shared\<close>, starts
  \<^verbatim>\<open>process_cnt\<close> processes running \<^verbatim>\<open>_worker\<close> and joins them.

  The processes run in parallel. The embedding is an interleaving semantics: every
  statement of \<^verbatim>\<open>_worker\<close> that touches a shared object (the two queues, the lock,
  the error stream) or calls \<^verbatim>\<open>work\<close> is one atomic step of that worker, a worker is
  a program counter holding its live local variables, and a run is a schedule, the
  list of the workers that were given a step, in the order in which they got it. A step
  of a worker that waits (for the lock, or for a value in \<^verbatim>\<open>shared\<close>) leaves the
  state as it is.

  What comes from outside the module is a parameter:
  \<^item> \<^verbatim>\<open>work\<close>, the caller's function, by its outcome on an index and an item: it
    returns, or it raises an exception (a call that never returns is not modelled);
  \<^item> \<^verbatim>\<open>tqdm.format_meter\<close>, the text of a progress line;
  \<^item> \<^verbatim>\<open>_screen_shape_wrapper\<close>, by what it answers;
  \<^item> \<^verbatim>\<open>time()\<close>, by the values it returns: the schedule carries the reading of
    the clock that a step gets if it asks. The type of the readings is any type with a
    subtraction, so that nothing is assumed of the arithmetic of Python's floats;
  \<^item> the two things that \<^verbatim>\<open>multiprocessing.Queue\<close> decides: which items its feeder
    thread can pickle, and whether a \<^verbatim>\<open>get(timeout=0.2)\<close> obtains the first item
    within its 0.2 seconds.

  The queues are \<^verbatim>\<open>multiprocessing.Queue\<close>: first in, first out. \<^verbatim>\<open>put\<close> only
  hands the item to the feeder thread of the queue, which pickles it and sends it
  through a pipe; an item whose pickling raises is dropped there and never arrives.
  \<^verbatim>\<open>get()\<close> waits for a value. \<^verbatim>\<open>get(timeout=0.2)\<close> returns the first value, or
  raises \<^verbatim>\<open>queue.Empty\<close> when it has obtained none within 0.2 seconds: when there is
  none, and also when the first one is still on its way or the reading end of the pipe
  is held by another process for that long. The values of \<^verbatim>\<open>shared\<close> are integers,
  which can be pickled, and \<^verbatim>\<open>shared.get()\<close> has no timeout: the time a value takes
  to arrive only delays the step that reads it.
\<close>

subsection \<open>Exceptions\<close>

datatype exn = Empty | TypeError | ValueError | Other string

subsection \<open>The shared objects and the workers\<close>

text \<open>
  The program counter of a worker names the statement it executes next:
  \<^item> \<open>Get\<close>: \<^verbatim>\<open>src.get(timeout=0.2)\<close>;
  \<^item> \<open>Work x\<close>: \<^verbatim>\<open>work(index, x)\<close>, with the item \<open>x\<close> it has taken;
  \<^item> \<open>Acquire\<close>: \<^verbatim>\<open>lock.acquire()\<close>;
  \<^item> \<open>SharedGet\<close>: \<^verbatim>\<open>new_id = shared.get() + 1\<close>;
  \<^item> \<open>Write new_id\<close>: \<^verbatim>\<open>stderr.write(tqdm.format_meter(new_id, length, time() - start, col) + '\r')\<close>;
  \<^item> \<open>Put new_id\<close>: \<^verbatim>\<open>shared.put(new_id)\<close>;
  \<^item> \<open>Release\<close>: \<^verbatim>\<open>lock.release()\<close>;
  \<^item> \<open>Returned\<close>: the \<^verbatim>\<open>return\<close> of the handler of \<^verbatim>\<open>Empty\<close>;
  \<^item> \<open>Raised e\<close>: the exception \<open>e\<close> has left the loop and ended the process.
\<close>

datatype 'a pc =
    Get | Work 'a | Acquire | SharedGet | Write int | Put int | Release
  | Returned | Raised exn

text \<open>
  The arguments that \<^verbatim>\<open>parallel\<close> gives to every worker and that never change,
  with the formatter the worker calls and the answer of the queue \<^verbatim>\<open>src\<close>:
  \<open>in_time A i now x\<close> says that the \<^verbatim>\<open>get(timeout=0.2)\<close> of the worker \<open>i\<close>, made
  when the clock reads \<open>now\<close> and the first item of the queue is \<open>x\<close>, obtains \<open>x\<close>
  before the 0.2 seconds have passed.
\<close>

record ('a, 't) args =
  work :: "nat \<Rightarrow> 'a \<Rightarrow> exn option"
  format_meter :: "int \<Rightarrow> int \<Rightarrow> 't \<Rightarrow> int \<Rightarrow> string"
  in_time :: "nat \<Rightarrow> 't \<Rightarrow> 'a \<Rightarrow> bool"
  length_arg :: int
  start :: 't
  col :: int

text \<open>
  The state: the two queues, the lock (\<open>True\<close> when it is held), what has been written
  to \<^verbatim>\<open>stderr\<close> (one string for each call of \<^verbatim>\<open>write\<close>), and the workers, the
  worker of index \<open>i\<close> at position \<open>i\<close>. Two fields only record the history:
  \<open>calls\<close>, the arguments of the calls of \<^verbatim>\<open>work\<close>, and \<open>meters\<close>, the arguments
  of the calls of \<^verbatim>\<open>format_meter\<close>, both in the order of the calls. The model
  orders the calls of \<^verbatim>\<open>write\<close>; how the stream buffers them is outside it.
\<close>

record ('a, 't) state =
  src :: "'a list"
  shared :: "int list"
  lock :: bool
  stderr :: "string list"
  procs :: "'a pc list"
  calls :: "(nat \<times> 'a) list"
  meters :: "(int \<times> int \<times> 't \<times> int) list"

definition put :: "'b list \<Rightarrow> 'b \<Rightarrow> 'b list" where
  "put q x = q @ [x]"

definition meter_line :: "('a, 't) args \<Rightarrow> int \<Rightarrow> 't \<Rightarrow> string" where
  "meter_line A n elapsed = format_meter A n (length_arg A) elapsed (col A) @ [CHR 0x0D]"

definition goto :: "nat \<Rightarrow> 'a pc \<Rightarrow> ('a, 't) state \<Rightarrow> ('a, 't) state" where
  "goto i p s = s\<lparr>procs := (procs s)[i := p]\<rparr>"

subsection \<open>One step of \<^verbatim>\<open>_worker\<close>\<close>

text \<open>
  \<open>None\<close> is a worker that cannot move now: it waits for the lock or for a value in
  \<^verbatim>\<open>shared\<close>, or it has ended. \<^verbatim>\<open>src.get(timeout=0.2)\<close> raises \<^verbatim>\<open>Empty\<close> when
  the queue is empty and when its first item is not obtained in time; in both cases
  the handler returns, in the second with items left in the queue. The \<^verbatim>\<open>try\<close>
  encloses the whole body of the loop, so an \<^verbatim>\<open>Empty\<close> raised by \<^verbatim>\<open>work\<close> reaches
  the same handler as the one raised by \<^verbatim>\<open>src.get\<close>; every other exception leaves
  the loop. \<^verbatim>\<open>release\<close> on a lock that is not held raises \<^verbatim>\<open>ValueError\<close>.
\<close>

fun worker_at :: "('a, 't::minus) args \<Rightarrow> nat \<Rightarrow> 't \<Rightarrow> ('a, 't) state \<Rightarrow> 'a pc \<Rightarrow> ('a, 't) state option" where
  "worker_at A i now s Get =
     (case src s of
        [] \<Rightarrow> Some (goto i Returned s)
      | x # xs \<Rightarrow>
          if in_time A i now x then Some (goto i (Work x) (s\<lparr>src := xs\<rparr>))
          else Some (goto i Returned s))"
| "worker_at A i now s (Work x) =
     (case work A i x of
        None \<Rightarrow> Some (goto i Acquire (s\<lparr>calls := calls s @ [(i, x)]\<rparr>))
      | Some e \<Rightarrow>
          if e = Empty then Some (goto i Returned (s\<lparr>calls := calls s @ [(i, x)]\<rparr>))
          else Some (goto i (Raised e) (s\<lparr>calls := calls s @ [(i, x)]\<rparr>)))"
| "worker_at A i now s Acquire =
     (if lock s then None else Some (goto i SharedGet (s\<lparr>lock := True\<rparr>)))"
| "worker_at A i now s SharedGet =
     (case shared s of
        [] \<Rightarrow> None
      | c # cs \<Rightarrow> Some (goto i (Write (c + 1)) (s\<lparr>shared := cs\<rparr>)))"
| "worker_at A i now s (Write new_id) =
     Some (goto i (Put new_id)
       (s\<lparr>stderr := stderr s @ [meter_line A new_id (now - start A)],
          meters := meters s @ [(new_id, length_arg A, now - start A, col A)]\<rparr>))"
| "worker_at A i now s (Put new_id) =
     Some (goto i Release (s\<lparr>shared := put (shared s) new_id\<rparr>))"
| "worker_at A i now s Release =
     (if lock s then Some (goto i Get (s\<lparr>lock := False\<rparr>))
      else Some (goto i (Raised ValueError) s))"
| "worker_at A i now s Returned = None"
| "worker_at A i now s (Raised e) = None"

definition worker :: "('a, 't::minus) args \<Rightarrow> nat \<Rightarrow> 't \<Rightarrow> ('a, 't) state \<Rightarrow> ('a, 't) state option" where
  "worker A i now s =
     (if i < length (procs s) then worker_at A i now s (procs s ! i) else None)"

subsection \<open>Runs\<close>

text \<open>
  A schedule gives, step by step, the worker that moves and the reading of the clock
  it would get. A worker that cannot move leaves the state unchanged.
\<close>

fun run :: "('a, 't::minus) args \<Rightarrow> ('a, 't) state \<Rightarrow> (nat \<times> 't) list \<Rightarrow> ('a, 't) state" where
  "run A s [] = s"
| "run A s ((i, now) # sch) =
     (case worker A i now s of None \<Rightarrow> run A s sch | Some s' \<Rightarrow> run A s' sch)"

fun ended :: "'a pc \<Rightarrow> bool" where
  "ended Returned = True"
| "ended (Raised e) = True"
| "ended _ = False"

definition joined :: "('a, 't) state \<Rightarrow> bool" where
  "joined s = list_all ended (procs s)"

subsection \<open>\<^verbatim>\<open>parallel\<close>\<close>

text \<open>
  What \<^verbatim>\<open>_screen_shape_wrapper()\<close> answers: no function for this platform
  (\<^verbatim>\<open>None\<close>), or a function whose result on \<^verbatim>\<open>stderr\<close> is a pair of columns and
  rows, each a number or \<^verbatim>\<open>None\<close>.
\<close>

datatype probe = NoProbe | Shape "int option" "int option"

text \<open>
  The environment of one call of \<^verbatim>\<open>parallel\<close>: the formatter, the answer of the
  console, the two readings of the clock that \<^verbatim>\<open>parallel\<close> itself takes
  (\<^verbatim>\<open>start = time()\<close>, and the \<^verbatim>\<open>time()\<close> of the first line), the items that the
  feeder thread of the queue can pickle, and the answer of the queue to the
  \<^verbatim>\<open>get(timeout=0.2)\<close> of the workers.
\<close>

record ('a, 't) env =
  env_format_meter :: "int \<Rightarrow> int \<Rightarrow> 't \<Rightarrow> int \<Rightarrow> string"
  screen_shape :: probe
  time_start :: 't
  time_first :: 't
  picklable :: "'a \<Rightarrow> bool"
  env_in_time :: "nat \<Rightarrow> 't \<Rightarrow> 'a \<Rightarrow> bool"

text \<open>
  The body of the \<^verbatim>\<open>try\<close>: \<^verbatim>\<open>_screen_shape_wrapper()(stderr)[0] // 2\<close>. Calling
  \<^verbatim>\<open>None\<close> and dividing \<^verbatim>\<open>None\<close> both raise \<^verbatim>\<open>TypeError\<close>; \<^verbatim>\<open>//\<close> on
  integers is the floor division, as \<open>div\<close> on \<open>int\<close>.
\<close>

fun try_col :: "probe \<Rightarrow> exn + int" where
  "try_col NoProbe = Inl TypeError"
| "try_col (Shape None rows) = Inl TypeError"
| "try_col (Shape (Some cols) rows) = Inr (cols div 2)"

definition console_col :: "probe \<Rightarrow> exn + int" where
  "console_col p =
     (case try_col p of
        Inl e \<Rightarrow> if e = TypeError then Inr 10 else Inl e
      | Inr c \<Rightarrow> Inr c)"

definition parallel_args ::
  "(nat \<Rightarrow> 'a \<Rightarrow> exn option) \<Rightarrow> 'a list \<Rightarrow> ('a, 't) env \<Rightarrow> int \<Rightarrow> ('a, 't) args" where
  "parallel_args wk data E c =
     \<lparr>work = wk, format_meter = env_format_meter E, in_time = env_in_time E,
      length_arg = int (length data), start = time_start E, col = c\<rparr>"

text \<open>
  What one \<^verbatim>\<open>src.put(item)\<close> adds to the items that the workers can get: the item,
  unless the feeder thread cannot pickle it.
\<close>

definition feed :: "('b \<Rightarrow> bool) \<Rightarrow> 'b list \<Rightarrow> 'b \<Rightarrow> 'b list" where
  "feed pk q x = (if pk x then put q x else q)"

text \<open>
  The state when the processes have been created: \<^verbatim>\<open>src\<close> filled by one
  \<^verbatim>\<open>put\<close> for each item of \<^verbatim>\<open>data\<close> from the first to the last, \<open>0\<close> in
  \<^verbatim>\<open>shared\<close>, the lock free, the first line written, and one worker for each
  element of \<^verbatim>\<open>range(process_cnt)\<close>, none of which has moved yet. \<^verbatim>\<open>length\<close>
  is \<^verbatim>\<open>len(data)\<close>, whatever the queue does with the items.
\<close>

definition parallel_init ::
  "(nat \<Rightarrow> 'a \<Rightarrow> exn option) \<Rightarrow> 'a list \<Rightarrow> int \<Rightarrow> ('a, 't::minus) env \<Rightarrow> int \<Rightarrow> ('a, 't) state" where
  "parallel_init wk data process_cnt E c =
     (let A = parallel_args wk data E c in
      \<lparr>src = foldl (feed (picklable E)) [] data,
       shared = put [] 0,
       lock = False,
       stderr = [meter_line A 0 (time_first E - start A)],
       procs = map (\<lambda>i. Get) [0..<nat process_cnt],
       calls = [],
       meters = [(0, length_arg A, time_first E - start A, col A)]\<rparr>)"

text \<open>
  The state that a schedule leads to, from the start of the processes on.
\<close>

definition parallel_run ::
  "(nat \<Rightarrow> 'a \<Rightarrow> exn option) \<Rightarrow> 'a list \<Rightarrow> int \<Rightarrow> ('a, 't::minus) env \<Rightarrow> int \<Rightarrow> (nat \<times> 't) list
     \<Rightarrow> ('a, 't) state" where
  "parallel_run wk data process_cnt E c sch =
     run (parallel_args wk data E c) (parallel_init wk data process_cnt E c) sch"

text \<open>
  The whole call. \<open>None\<close>: under this schedule \<^verbatim>\<open>parallel\<close> is still in a
  \<^verbatim>\<open>join\<close>; \<open>Some (Inl e)\<close>: it has raised \<open>e\<close>; \<open>Some (Inr s)\<close>: it has returned,
  the final newline written, leaving the state \<open>s\<close>.
\<close>

definition parallel ::
  "(nat \<Rightarrow> 'a \<Rightarrow> exn option) \<Rightarrow> 'a list \<Rightarrow> int \<Rightarrow> ('a, 't::minus) env \<Rightarrow> (nat \<times> 't) list
     \<Rightarrow> (exn + ('a, 't) state) option" where
  "parallel wk data process_cnt E sch =
     (case console_col (screen_shape E) of
        Inl e \<Rightarrow> Some (Inl e)
      | Inr c \<Rightarrow>
          let s = parallel_run wk data process_cnt E c sch
          in if joined s then Some (Inr (s\<lparr>stderr := stderr s @ [[CHR 0x0A]]\<rparr>)) else None)"

section \<open>Predicates on states\<close>

subsection \<open>The lock and the counter cell\<close>

text \<open>
  A worker is inside the critical section from the moment it has the lock until it has
  released it: at \<open>SharedGet\<close>, \<open>Write\<close>, \<open>Put\<close> and \<open>Release\<close>.
\<close>

fun in_cs :: "'a pc \<Rightarrow> bool" where
  "in_cs SharedGet = True"
| "in_cs (Write v) = True"
| "in_cs (Put v) = True"
| "in_cs Release = True"
| "in_cs _ = False"

text \<open>
  At most one element of a list has the property; some worker is inside.
\<close>

definition solo :: "('b \<Rightarrow> bool) \<Rightarrow> 'b list \<Rightarrow> bool" where
  "solo P xs \<longleftrightarrow> (\<forall>i < length xs. \<forall>j < length xs. P (xs ! i) \<and> P (xs ! j) \<longrightarrow> i = j)"

definition busy :: "'a pc list \<Rightarrow> bool" where
  "busy ps \<longleftrightarrow> (\<exists>i < length ps. in_cs (ps ! i))"

text \<open>
  The number of items that have been counted so far: the calls of
  \<^verbatim>\<open>format_meter\<close> but the first. The invariant \<open>gate_inv\<close> ties the contents of
  the cell \<^verbatim>\<open>shared\<close> and the local \<^verbatim>\<open>new_id\<close> of the worker inside to it.
\<close>

definition counter :: "('a, 't) state \<Rightarrow> int" where
  "counter s = int (length (meters s)) - 1"

fun cell_ok :: "int list \<Rightarrow> int \<Rightarrow> 'a pc \<Rightarrow> bool" where
  "cell_ok sh c SharedGet = (sh = [c])"
| "cell_ok sh c (Write v) = (sh = [] \<and> v = c + 1)"
| "cell_ok sh c (Put v) = (sh = [] \<and> v = c)"
| "cell_ok sh c Release = (sh = [c])"
| "cell_ok sh c _ = True"

definition cells_ok :: "int list \<Rightarrow> int \<Rightarrow> 'a pc list \<Rightarrow> bool" where
  "cells_ok sh c ps \<longleftrightarrow> (\<forall>i < length ps. cell_ok sh c (ps ! i))"

definition gate_inv :: "('a, 't) state \<Rightarrow> bool" where
  "gate_inv s \<longleftrightarrow>
     solo in_cs (procs s) \<and> (lock s \<longleftrightarrow> busy (procs s)) \<and>
     cells_ok (shared s) (counter s) (procs s) \<and>
     (\<not> lock s \<longrightarrow> shared s = [counter s]) \<and>
     map fst (meters s) = map int [0..<length (meters s)]"

subsection \<open>Where the items are\<close>

text \<open>
  An item is in the queue, or in the hands of a worker that has taken it and has not
  called \<^verbatim>\<open>work\<close> yet, or among the arguments of the calls made.
\<close>

fun item_of :: "'a pc \<Rightarrow> 'a multiset" where
  "item_of (Work x) = {#x#}"
| "item_of _ = {#}"

definition in_flight :: "'a pc list \<Rightarrow> 'a multiset" where
  "in_flight ps = sum_list (map item_of ps)"

definition items :: "('a, 't) state \<Rightarrow> 'a multiset" where
  "items s = mset (src s) + in_flight (procs s) + mset (map snd (calls s))"

subsection \<open>What is written\<close>

text \<open>
  The line that a call of \<^verbatim>\<open>format_meter\<close> becomes on \<^verbatim>\<open>stderr\<close>: its text and a
  carriage return.
\<close>

fun line_of :: "(int \<Rightarrow> int \<Rightarrow> 't \<Rightarrow> int \<Rightarrow> string) \<Rightarrow> int \<times> int \<times> 't \<times> int \<Rightarrow> string" where
  "line_of fmt (n, l, e, c) = fmt n l e c @ [CHR 0x0D]"

definition echo_inv :: "('a, 't) args \<Rightarrow> ('a, 't) state \<Rightarrow> bool" where
  "echo_inv A s \<longleftrightarrow> stderr s = map (line_of (format_meter A)) (meters s)"

subsection \<open>Runs in which \<^verbatim>\<open>work\<close> never raises and no \<^verbatim>\<open>get\<close> is late\<close>

text \<open>
  \<open>succeeds wk k data\<close>: \<^verbatim>\<open>work\<close> returns normally for every worker index below
  \<open>k\<close> on every item of the list. \<open>punctual it k data\<close>: every \<^verbatim>\<open>get(timeout=0.2)\<close>
  of a worker of index below \<open>k\<close> obtains the first item in time when it is an item
  of the list. In a run with both, every call of \<^verbatim>\<open>work\<close> is counted or about to be
  (\<open>pending\<close>), no worker has ended by an exception, and a worker has returned only
  when the queue was empty.
\<close>

fun pending :: "'a pc \<Rightarrow> nat" where
  "pending Acquire = 1"
| "pending SharedGet = 1"
| "pending (Write v) = 1"
| "pending _ = 0"

fun crashed :: "'a pc \<Rightarrow> bool" where
  "crashed (Raised e) = True"
| "crashed _ = False"

definition succeeds :: "(nat \<Rightarrow> 'a \<Rightarrow> exn option) \<Rightarrow> nat \<Rightarrow> 'a list \<Rightarrow> bool" where
  "succeeds wk k data \<longleftrightarrow> (\<forall>i < k. \<forall>x \<in> set data. wk i x = None)"

definition punctual :: "(nat \<Rightarrow> 't \<Rightarrow> 'a \<Rightarrow> bool) \<Rightarrow> nat \<Rightarrow> 'a list \<Rightarrow> bool" where
  "punctual it k data \<longleftrightarrow> (\<forall>i < k. \<forall>now. \<forall>x \<in> set data. it i now x)"

definition ok_inv :: "('a, 't) state \<Rightarrow> bool" where
  "ok_inv s \<longleftrightarrow>
     length (calls s) + 1 = length (meters s) + sum_list (map pending (procs s)) \<and>
     (\<forall>p \<in> set (procs s). \<not> crashed p) \<and>
     (Returned \<in> set (procs s) \<longrightarrow> src s = [])"

subsection \<open>Termination\<close>

text \<open>
  \<open>rank\<close> is the number of steps a worker can still make before it takes a next
  item or ends; \<open>mu\<close> bounds the steps that all workers can still make; \<open>moves\<close>
  counts the steps of a schedule in which the scheduled worker did move.
\<close>

fun rank :: "'a pc \<Rightarrow> nat" where
  "rank Get = 1"
| "rank (Work x) = 7"
| "rank Acquire = 6"
| "rank SharedGet = 5"
| "rank (Write v) = 4"
| "rank (Put v) = 3"
| "rank Release = 2"
| "rank Returned = 0"
| "rank (Raised e) = 0"

definition mu :: "('a, 't) state \<Rightarrow> nat" where
  "mu s = 7 * length (src s) + sum_list (map rank (procs s))"

fun moves :: "('a, 't::minus) args \<Rightarrow> ('a, 't) state \<Rightarrow> (nat \<times> 't) list \<Rightarrow> nat" where
  "moves A s [] = 0"
| "moves A s ((i, now) # sch) =
     (case worker A i now s of None \<Rightarrow> moves A s sch | Some s' \<Rightarrow> Suc (moves A s' sch))"

subsection \<open>The sequential loop\<close>

text \<open>
  The reference for a run with one worker, written from the words of the claim and not
  from the source: the calls of \<^verbatim>\<open>work\<close> that the sequential loop
  \<^verbatim>\<open>for x in data: work(0, x)\<close> makes, from the left to the right; the loop ends
  with the first call that raises.
\<close>

fun sequential :: "(nat \<Rightarrow> 'a \<Rightarrow> exn option) \<Rightarrow> 'a list \<Rightarrow> (nat \<times> 'a) list" where
  "sequential wk [] = []"
| "sequential wk (x # xs) =
     (0, x) # (case wk 0 x of None \<Rightarrow> sequential wk xs | Some e \<Rightarrow> [])"

text \<open>
  What the single worker would still call if it went on to the end of the queue, given
  the queue and where the worker stands. While the worker has not ended, the calls made
  and these are the calls of the loop; when it has ended, the calls made are an
  initial part of them.
\<close>

fun to_call :: "(nat \<Rightarrow> 'a \<Rightarrow> exn option) \<Rightarrow> 'a list \<Rightarrow> 'a pc \<Rightarrow> (nat \<times> 'a) list" where
  "to_call wk q (Work x) = sequential wk (x # q)"
| "to_call wk q p = sequential wk q"

definition seq_inv :: "(nat \<Rightarrow> 'a \<Rightarrow> exn option) \<Rightarrow> 'a list \<Rightarrow> ('a, 't) state \<Rightarrow> bool" where
  "seq_inv wk data s \<longleftrightarrow>
     (\<exists>p rest. procs s = [p] \<and> sequential wk data = calls s @ rest
        \<and> (\<not> ended p \<longrightarrow> rest = to_call wk (src s) p))"

section \<open>Inputs for the examples\<close>

text \<open>
  Concrete inputs on which the statements below are evaluated: a \<^verbatim>\<open>work\<close> that
  always returns, a \<^verbatim>\<open>work\<close> that raises \<^verbatim>\<open>queue.Empty\<close> on one item, a formatter
  that draws one \<open>#\<close> for each item done, and a console of 80 columns with the clock
  at 100 when \<^verbatim>\<open>parallel\<close> starts, in which every item can be pickled and reaches
  every \<^verbatim>\<open>get\<close> in time. In \<open>late_env bad\<close> the item \<open>bad\<close> takes more than 0.2
  seconds to reach a \<^verbatim>\<open>get\<close>, as an item does that is slow to pickle or large; in
  \<open>lossy_env bad\<close> the item \<open>bad\<close> cannot be pickled.
\<close>

definition always_ok :: "nat \<Rightarrow> int \<Rightarrow> exn option" where
  "always_ok i x = None"

definition empty_on :: "int \<Rightarrow> nat \<Rightarrow> int \<Rightarrow> exn option" where
  "empty_on bad i x = (if x = bad then Some Empty else None)"

definition hashes :: "int \<Rightarrow> int \<Rightarrow> int \<Rightarrow> int \<Rightarrow> string" where
  "hashes n l e c = replicate (nat n) CHR ''#''"

definition any_item :: "int \<Rightarrow> bool" where
  "any_item x = True"

definition all_but :: "int \<Rightarrow> int \<Rightarrow> bool" where
  "all_but bad x = (x \<noteq> bad)"

definition at_once :: "nat \<Rightarrow> int \<Rightarrow> int \<Rightarrow> bool" where
  "at_once i now x = True"

definition late :: "int \<Rightarrow> nat \<Rightarrow> int \<Rightarrow> int \<Rightarrow> bool" where
  "late bad i now x = (x \<noteq> bad)"

definition wide_env :: "(int, int) env" where
  "wide_env = \<lparr>env_format_meter = hashes, screen_shape = Shape (Some 80) (Some 24),
     time_start = 100, time_first = 100, picklable = any_item, env_in_time = at_once\<rparr>"

definition late_env :: "int \<Rightarrow> (int, int) env" where
  "late_env bad = wide_env\<lparr>env_in_time := late bad\<rparr>"

definition lossy_env :: "int \<Rightarrow> (int, int) env" where
  "lossy_env bad = wide_env\<lparr>picklable := all_but bad\<rparr>"

section \<open>Invariants of the runs\<close>

subsection \<open>The steps of a worker\<close>

text \<open>
  A step that a worker makes is one of twelve: one for each statement of the loop,
  three for \<^verbatim>\<open>src.get\<close> (the queue empty, the first item obtained, the first item
  late), three for \<^verbatim>\<open>work\<close> (it returns, it raises \<^verbatim>\<open>Empty\<close>, it raises something
  else) and two for \<^verbatim>\<open>release\<close>.
\<close>

lemma worker_elims:
  assumes "worker A i now s = Some s'"
  obtains
    (Drained) "i < length (procs s)" "procs s ! i = Get" "src s = []" "s' = goto i Returned s"
  | (Take) x xs where "i < length (procs s)" "procs s ! i = Get" "src s = x # xs"
      "in_time A i now x" "s' = goto i (Work x) (s\<lparr>src := xs\<rparr>)"
  | (TimedOut) x xs where "i < length (procs s)" "procs s ! i = Get" "src s = x # xs"
      "\<not> in_time A i now x" "s' = goto i Returned s"
  | (Ok) x where "i < length (procs s)" "procs s ! i = Work x" "work A i x = None"
      "s' = goto i Acquire (s\<lparr>calls := calls s @ [(i, x)]\<rparr>)"
  | (Swallow) x where "i < length (procs s)" "procs s ! i = Work x" "work A i x = Some Empty"
      "s' = goto i Returned (s\<lparr>calls := calls s @ [(i, x)]\<rparr>)"
  | (Crash) x e where "i < length (procs s)" "procs s ! i = Work x" "work A i x = Some e" "e \<noteq> Empty"
      "s' = goto i (Raised e) (s\<lparr>calls := calls s @ [(i, x)]\<rparr>)"
  | (Lock) "i < length (procs s)" "procs s ! i = Acquire" "\<not> lock s"
      "s' = goto i SharedGet (s\<lparr>lock := True\<rparr>)"
  | (Read) c cs where "i < length (procs s)" "procs s ! i = SharedGet" "shared s = c # cs"
      "s' = goto i (Write (c + 1)) (s\<lparr>shared := cs\<rparr>)"
  | (Render) v where "i < length (procs s)" "procs s ! i = Write v"
      "s' = goto i (Put v)
        (s\<lparr>stderr := stderr s @ [meter_line A v (now - start A)],
           meters := meters s @ [(v, length_arg A, now - start A, col A)]\<rparr>)"
  | (Store) v where "i < length (procs s)" "procs s ! i = Put v"
      "s' = goto i Release (s\<lparr>shared := put (shared s) v\<rparr>)"
  | (Unlock) "i < length (procs s)" "procs s ! i = Release" "lock s"
      "s' = goto i Get (s\<lparr>lock := False\<rparr>)"
  | (Unheld) "i < length (procs s)" "procs s ! i = Release" "\<not> lock s"
      "s' = goto i (Raised ValueError) s"
proof -
  from assms have i: "i < length (procs s)" and w: "worker_at A i now s (procs s ! i) = Some s'"
    by (auto simp: worker_def split: if_splits)
  show thesis
  proof (cases "procs s ! i")
    case Get
    with w i Drained Take TimedOut show ?thesis
      by (cases "src s") (auto split: if_splits)
  next
    case (Work x)
    with w i Ok Swallow Crash show ?thesis by (cases "work A i x") (auto split: if_splits)
  next
    case Acquire
    with w i Lock show ?thesis by (auto split: if_splits)
  next
    case SharedGet
    with w i Read show ?thesis by (cases "shared s") auto
  next
    case (Write v)
    with w i Render show ?thesis by auto
  next
    case (Put v)
    with w i Store show ?thesis by auto
  next
    case Release
    with w i Unlock Unheld show ?thesis by (auto split: if_splits)
  next
    case Returned
    with w show ?thesis by simp
  next
    case (Raised e)
    with w show ?thesis by simp
  qed
qed

subsection \<open>One worker changes place\<close>

lemma nth_upd: "j < length xs \<Longrightarrow> xs[i := y] ! j = (if i = j then y else xs ! j)"
  by (cases "i < length xs") (simp_all add: nth_list_update)

lemma solo_leave: "solo P xs \<Longrightarrow> \<not> P y \<Longrightarrow> solo P (xs[i := y])"
  unfolding solo_def by (auto simp: nth_upd split: if_splits)

lemma solo_stay: "solo P xs \<Longrightarrow> i < length xs \<Longrightarrow> P (xs ! i) \<Longrightarrow> solo P (xs[i := y])"
  unfolding solo_def by (auto simp: nth_upd split: if_splits)

lemma solo_enter: "\<not> busy ps \<Longrightarrow> solo in_cs (ps[i := y])"
  unfolding solo_def busy_def by (auto simp: nth_upd split: if_splits)

lemma busy_upd_same:
  "i < length ps \<Longrightarrow> in_cs (ps ! i) = in_cs y \<Longrightarrow> busy (ps[i := y]) = busy ps"
  unfolding busy_def by (auto simp: nth_upd split: if_splits)

lemma busy_upd_in: "i < length ps \<Longrightarrow> in_cs y \<Longrightarrow> busy (ps[i := y])"
  unfolding busy_def by (auto simp: nth_upd intro!: exI [of _ i])

lemma busy_upd_out:
  "solo in_cs ps \<Longrightarrow> i < length ps \<Longrightarrow> in_cs (ps ! i) \<Longrightarrow> \<not> in_cs y \<Longrightarrow> \<not> busy (ps[i := y])"
  unfolding solo_def busy_def by (auto simp: nth_upd split: if_splits)

lemma busy_nth: "i < length ps \<Longrightarrow> in_cs (ps ! i) \<Longrightarrow> busy ps"
  unfolding busy_def by auto

lemma cell_ok_outside: "\<not> in_cs p \<Longrightarrow> cell_ok sh c p"
  by (cases p) simp_all

lemma cells_ok_nth: "cells_ok sh c ps \<Longrightarrow> i < length ps \<Longrightarrow> cell_ok sh c (ps ! i)"
  unfolding cells_ok_def by simp

lemma cells_ok_keep: "cells_ok sh c ps \<Longrightarrow> cell_ok sh c y \<Longrightarrow> cells_ok sh c (ps[i := y])"
  unfolding cells_ok_def by (auto simp: nth_upd)

lemma cells_ok_holder:
  "solo in_cs ps \<Longrightarrow> i < length ps \<Longrightarrow> in_cs (ps ! i) \<Longrightarrow> cell_ok sh c y \<Longrightarrow> cells_ok sh c (ps[i := y])"
  unfolding cells_ok_def solo_def by (auto simp: nth_upd intro: cell_ok_outside)

lemma goto_simps [simp]:
  "src (goto i p s) = src s"
  "shared (goto i p s) = shared s"
  "lock (goto i p s) = lock s"
  "stderr (goto i p s) = stderr s"
  "calls (goto i p s) = calls s"
  "meters (goto i p s) = meters s"
  "procs (goto i p s) = (procs s)[i := p]"
  by (simp_all add: goto_def)

lemma counter_simps [simp]:
  "counter (goto i p s) = counter s"
  "counter (s\<lparr>src := xs\<rparr>) = counter s"
  "counter (s\<lparr>calls := cl\<rparr>) = counter s"
  "counter (s\<lparr>lock := b\<rparr>) = counter s"
  "counter (s\<lparr>shared := sh\<rparr>) = counter s"
  "counter (s\<lparr>stderr := er, meters := meters s @ [m]\<rparr>) = counter s + 1"
  by (simp_all add: counter_def goto_def)

subsection \<open>The invariant of the lock and the cell\<close>

lemma gate_inv_step:
  assumes "gate_inv s" and "worker A i now s = Some s'"
  shows "gate_inv s'"
  using assms(2)
proof (cases rule: worker_elims)
  case Drained
  with assms(1) show ?thesis
    by (simp add: gate_inv_def solo_leave busy_upd_same cells_ok_keep)
next
  case (Take x xs)
  with assms(1) show ?thesis
    by (simp add: gate_inv_def solo_leave busy_upd_same cells_ok_keep)
next
  case (TimedOut x xs)
  with assms(1) show ?thesis
    by (simp add: gate_inv_def solo_leave busy_upd_same cells_ok_keep)
next
  case (Ok x)
  with assms(1) show ?thesis
    by (simp add: gate_inv_def solo_leave busy_upd_same cells_ok_keep)
next
  case (Swallow x)
  with assms(1) show ?thesis
    by (simp add: gate_inv_def solo_leave busy_upd_same cells_ok_keep)
next
  case (Crash x e)
  with assms(1) show ?thesis
    by (simp add: gate_inv_def solo_leave busy_upd_same cells_ok_keep)
next
  case Lock
  with assms(1) have "shared s = [counter s]" and "cells_ok [counter s] (counter s) (procs s)"
    and "\<not> busy (procs s)"
    by (auto simp: gate_inv_def)
  with Lock assms(1) show ?thesis
    by (simp add: gate_inv_def solo_enter busy_upd_in cells_ok_keep)
next
  case (Read c cs)
  with assms(1) have lk: "lock s" and ce: "shared s = [counter s]"
    using cells_ok_nth [of "shared s" "counter s" "procs s" i]
    by (auto simp: gate_inv_def busy_nth)
  with Read assms(1) show ?thesis
    by (simp add: gate_inv_def solo_stay busy_upd_in cells_ok_holder)
next
  case (Render v)
  with assms(1) have lk: "lock s" and ce: "shared s = []" "v = counter s + 1"
    using cells_ok_nth [of "shared s" "counter s" "procs s" i]
    by (auto simp: gate_inv_def busy_nth)
  moreover have "counter s + 1 = int (length (meters s))"
    by (simp add: counter_def)
  ultimately show ?thesis using Render assms(1)
    by (simp add: gate_inv_def solo_stay busy_upd_in cells_ok_holder)
next
  case (Store v)
  with assms(1) have lk: "lock s" and ce: "shared s = []" "v = counter s"
    using cells_ok_nth [of "shared s" "counter s" "procs s" i]
    by (auto simp: gate_inv_def busy_nth)
  with Store assms(1) show ?thesis
    by (simp add: gate_inv_def put_def solo_stay busy_upd_in cells_ok_holder)
next
  case Unlock
  with assms(1) have ce: "shared s = [counter s]"
    using cells_ok_nth [of "shared s" "counter s" "procs s" i]
    by (auto simp: gate_inv_def)
  with Unlock assms(1) show ?thesis
    by (simp add: gate_inv_def solo_leave busy_upd_out cells_ok_keep)
next
  case Unheld
  with assms(1) show ?thesis
    by (simp add: gate_inv_def solo_leave busy_nth)
qed


subsection \<open>No item is lost, none is made\<close>

lemma sum_list_upd:
  fixes f :: "'b \<Rightarrow> 'c::comm_monoid_add"
  shows "i < length ps \<Longrightarrow> sum_list (map f (ps[i := y])) + f (ps ! i) = sum_list (map f ps) + f y"
proof (induction ps arbitrary: i)
  case Nil
  then show ?case by simp
next
  case (Cons p ps)
  show ?case
  proof (cases i)
    case 0
    then show ?thesis by (simp add: ac_simps)
  next
    case (Suc j)
    with Cons.prems have "j < length ps" by simp
    from Cons.IH [OF this] Suc show ?thesis
      by (simp add: add.assoc)
  qed
qed

lemma in_flight_upd:
  "i < length ps \<Longrightarrow> in_flight (ps[i := y]) + item_of (ps ! i) = in_flight ps + item_of y"
  unfolding in_flight_def by (rule sum_list_upd)

lemma in_flight_idle:
  "i < length ps \<Longrightarrow> item_of (ps ! i) = {#} \<Longrightarrow> item_of y = {#} \<Longrightarrow> in_flight (ps[i := y]) = in_flight ps"
  using in_flight_upd [of i ps y] by simp

lemma in_flight_take:
  "i < length ps \<Longrightarrow> item_of (ps ! i) = {#} \<Longrightarrow> in_flight (ps[i := Work x]) = in_flight ps + {#x#}"
  using in_flight_upd [of i ps "Work x"] by simp

lemma in_flight_done:
  "i < length ps \<Longrightarrow> ps ! i = Work x \<Longrightarrow> item_of y = {#} \<Longrightarrow> in_flight (ps[i := y]) + {#x#} = in_flight ps"
  using in_flight_upd [of i ps y] by simp

lemma items_step:
  assumes "worker A i now s = Some s'"
  shows "items s' = items s"
  using assms
proof (cases rule: worker_elims)
  case (Take x xs)
  then show ?thesis by (simp add: items_def in_flight_take)
next
  case (Ok x)
  then show ?thesis using in_flight_done [of i "procs s" x Acquire] by (simp add: items_def)
next
  case (Swallow x)
  then show ?thesis using in_flight_done [of i "procs s" x Returned] by (simp add: items_def)
next
  case (Crash x e)
  then show ?thesis using in_flight_done [of i "procs s" x "Raised e"] by (simp add: items_def)
qed (simp_all add: items_def in_flight_idle)

lemma echo_step:
  assumes "echo_inv A s" and "worker A i now s = Some s'"
  shows "echo_inv A s'"
  using assms(2)
  by (cases rule: worker_elims) (use assms(1) in \<open>simp_all add: echo_inv_def meter_line_def\<close>)

lemma length_procs_step:
  assumes "worker A i now s = Some s'"
  shows "length (procs s') = length (procs s)"
  using assms by (cases rule: worker_elims) simp_all

subsection \<open>Every step uses up the measure\<close>

lemma mu_upd:
  "i < length ps \<Longrightarrow> sum_list (map rank (ps[i := y])) + rank (ps ! i) = sum_list (map rank ps) + rank y"
  by (rule sum_list_upd)

lemma mu_step:
  assumes "worker A i now s = Some s'"
  shows "mu s' < mu s"
  using assms
proof (cases rule: worker_elims)
  case Drained
  then show ?thesis using mu_upd [of i "procs s" Returned] by (simp add: mu_def)
next
  case (Take x xs)
  then show ?thesis using mu_upd [of i "procs s" "Work x"] by (simp add: mu_def)
next
  case (TimedOut x xs)
  then show ?thesis using mu_upd [of i "procs s" Returned] by (simp add: mu_def)
next
  case (Ok x)
  then show ?thesis using mu_upd [of i "procs s" Acquire] by (simp add: mu_def)
next
  case (Swallow x)
  then show ?thesis using mu_upd [of i "procs s" Returned] by (simp add: mu_def)
next
  case (Crash x e)
  then show ?thesis using mu_upd [of i "procs s" "Raised e"] by (simp add: mu_def)
next
  case Lock
  then show ?thesis using mu_upd [of i "procs s" SharedGet] by (simp add: mu_def)
next
  case (Read c cs)
  then show ?thesis using mu_upd [of i "procs s" "Write (c + 1)"] by (simp add: mu_def)
next
  case (Render v)
  then show ?thesis using mu_upd [of i "procs s" "Put v"] by (simp add: mu_def)
next
  case (Store v)
  then show ?thesis using mu_upd [of i "procs s" Release] by (simp add: mu_def)
next
  case Unlock
  then show ?thesis using mu_upd [of i "procs s" Get] by (simp add: mu_def)
next
  case Unheld
  then show ?thesis using mu_upd [of i "procs s" "Raised ValueError"] by (simp add: mu_def)
qed

subsection \<open>The invariant of the runs without failure\<close>

lemma pending_upd:
  "i < length ps \<Longrightarrow> sum_list (map pending (ps[i := y])) + pending (ps ! i) = sum_list (map pending ps) + pending y"
  by (rule sum_list_upd)

lemma set_upd_cases: "p \<in> set (ps[i := y]) \<Longrightarrow> p = y \<or> p \<in> set ps"
  using set_update_subset_insert [of ps i y] by auto

lemma in_flight_mem: "i < length ps \<Longrightarrow> ps ! i = Work x \<Longrightarrow> x \<in># in_flight ps"
proof (induction ps arbitrary: i)
  case Nil
  then show ?case by simp
next
  case (Cons p ps)
  then show ?case by (cases i) (auto simp: in_flight_def)
qed

lemma work_item_in_data:
  assumes "items s = mset data" "i < length (procs s)" "procs s ! i = Work x"
  shows "x \<in> set data"
proof -
  from assms(2,3) have "x \<in># in_flight (procs s)" by (rule in_flight_mem)
  then have "x \<in># items s" by (simp add: items_def)
  with assms(1) show ?thesis by simp
qed

lemma ok_inv_step:
  assumes ok: "ok_inv s" and g: "gate_inv s" and it: "items s = mset data"
    and su: "succeeds (work A) (length (procs s)) data"
    and pu: "punctual (in_time A) (length (procs s)) data"
    and w: "worker A i now s = Some s'"
  shows "ok_inv s'"
  using w
proof (cases rule: worker_elims)
  case Drained
  with ok show ?thesis using pending_upd [of i "procs s" Returned]
    by (auto simp: ok_inv_def dest: set_upd_cases)
next
  case (Take x xs)
  with ok show ?thesis using pending_upd [of i "procs s" "Work x"]
    by (auto simp: ok_inv_def dest!: set_upd_cases)
next
  case (TimedOut x xs)
  then have "x \<in># items s" by (simp add: items_def)
  with it have "x \<in> set data" by simp
  with pu TimedOut show ?thesis by (simp add: punctual_def)
next
  case (Ok x)
  with ok show ?thesis using pending_upd [of i "procs s" Acquire]
    by (auto simp: ok_inv_def dest!: set_upd_cases)
next
  case (Swallow x)
  with it have "x \<in> set data" by (auto intro: work_item_in_data)
  with su Swallow show ?thesis by (simp add: succeeds_def)
next
  case (Crash x e)
  with it have "x \<in> set data" by (auto intro: work_item_in_data)
  with su Crash show ?thesis by (simp add: succeeds_def)
next
  case Lock
  with ok show ?thesis using pending_upd [of i "procs s" SharedGet]
    by (auto simp: ok_inv_def dest!: set_upd_cases)
next
  case (Read c cs)
  with ok show ?thesis using pending_upd [of i "procs s" "Write (c + 1)"]
    by (auto simp: ok_inv_def dest!: set_upd_cases)
next
  case (Render v)
  with ok show ?thesis using pending_upd [of i "procs s" "Put v"]
    by (auto simp: ok_inv_def dest!: set_upd_cases)
next
  case (Store v)
  with ok show ?thesis using pending_upd [of i "procs s" Release]
    by (auto simp: ok_inv_def dest!: set_upd_cases)
next
  case Unlock
  with ok show ?thesis using pending_upd [of i "procs s" Get]
    by (auto simp: ok_inv_def dest!: set_upd_cases)
next
  case Unheld
  with g have "lock s" by (auto simp: gate_inv_def busy_nth)
  with Unheld show ?thesis by simp
qed

subsection \<open>Some worker can always move, and every run can be completed\<close>

text \<open>
  A worker waits only for the lock; the worker that holds the lock never waits, since
  the cell is not empty when it reads it. So while a worker has not ended, one can move.
\<close>

lemma progress:
  assumes g: "gate_inv s" and nj: "\<not> joined s"
  shows "\<exists>i s'. worker A i now s = Some s'"
proof -
  from nj obtain i where i: "i < length (procs s)" and ne: "\<not> ended (procs s ! i)"
    by (auto simp: joined_def list_all_length)
  have move: "\<exists>s'. worker A j now s = Some s'"
    if j: "j < length (procs s)" and nb: "procs s ! j \<noteq> Acquire \<or> \<not> lock s"
       and nej: "\<not> ended (procs s ! j)" for j
  proof (cases "procs s ! j")
    case SharedGet
    with g j have "shared s = [counter s]"
      using cells_ok_nth [of "shared s" "counter s" "procs s" j] by (simp add: gate_inv_def)
    with SharedGet j show ?thesis by (simp add: worker_def)
  next
    case (Work x)
    with j show ?thesis by (cases "work A j x") (simp_all add: worker_def)
  next
    case Get
    with j show ?thesis by (cases "src s") (simp_all add: worker_def split: if_splits)
  qed (use j nb nej in \<open>simp_all add: worker_def\<close>)
  show ?thesis
  proof (cases "procs s ! i = Acquire \<and> lock s")
    case False
    with move [OF i _ ne] show ?thesis by blast
  next
    case True
    with g have "busy (procs s)" by (simp add: gate_inv_def)
    then obtain j where j: "j < length (procs s)" and cs: "in_cs (procs s ! j)"
      by (auto simp: busy_def)
    from cs have "procs s ! j \<noteq> Acquire" "\<not> ended (procs s ! j)"
      by (cases "procs s ! j"; simp)+
    with move [OF j] show ?thesis by blast
  qed
qed

lemma run_append: "run A s (a @ b) = run A (run A s a) b"
  by (induction a arbitrary: s) (auto split: option.splits)

lemma run_invariant:
  assumes "P s" and "\<And>s i now s'. P s \<Longrightarrow> worker A i now s = Some s' \<Longrightarrow> P s'"
  shows "P (run A s sch)"
  using assms(1)
proof (induction sch arbitrary: s)
  case Nil
  then show ?case by simp
next
  case (Cons a sch)
  obtain i now where a: "a = (i, now)" by (cases a)
  show ?case
  proof (cases "worker A i now s")
    case None
    with a Cons show ?thesis by simp
  next
    case (Some s')
    with Cons.prems have "P s'" by (auto intro: assms(2))
    with a Some Cons.IH show ?thesis by simp
  qed
qed

lemma completes:
  assumes "gate_inv s"
  shows "\<exists>js. joined (run A s (map (\<lambda>j. (j, now)) js))"
  using assms
proof (induction "mu s" arbitrary: s rule: less_induct)
  case less
  show ?case
  proof (cases "joined s")
    case True
    then have "joined (run A s (map (\<lambda>j. (j, now)) []))" by simp
    then show ?thesis by blast
  next
    case False
    from progress [OF less.prems False, of A now]
    obtain i s' where w: "worker A i now s = Some s'" by blast
    from less.hyps [OF mu_step [OF w] gate_inv_step [OF less.prems w]]
    obtain js where "joined (run A s' (map (\<lambda>j. (j, now)) js))" by blast
    with w have "joined (run A s (map (\<lambda>j. (j, now)) (i # js)))" by simp
    then show ?thesis by blast
  qed
qed

lemma moves_bound: "moves A s sch + mu (run A s sch) \<le> mu s"
proof (induction sch arbitrary: s)
  case Nil
  then show ?case by simp
next
  case (Cons a sch)
  obtain i now where a: "a = (i, now)" by (cases a)
  show ?case
  proof (cases "worker A i now s")
    case None
    with a Cons.IH [of s] show ?thesis by simp
  next
    case (Some s')
    with a Cons.IH [of s'] mu_step [OF Some] show ?thesis by simp
  qed
qed

subsection \<open>The state at the start and the states that are reached\<close>

lemma foldl_feed: "foldl (feed pk) acc xs = acc @ filter pk xs"
  by (induction xs arbitrary: acc) (simp_all add: feed_def put_def)

lemma init_fields [simp]:
  "src (parallel_init wk data k E c) = filter (picklable E) data"
  "shared (parallel_init wk data k E c) = [0]"
  "lock (parallel_init wk data k E c) = False"
  "stderr (parallel_init wk data k E c) =
     [env_format_meter E 0 (int (length data)) (time_first E - time_start E) c @ [CHR 0x0D]]"
  "procs (parallel_init wk data k E c) = replicate (nat k) Get"
  "calls (parallel_init wk data k E c) = []"
  "meters (parallel_init wk data k E c) = [(0, int (length data), time_first E - time_start E, c)]"
  by (simp_all add: parallel_init_def parallel_args_def meter_line_def foldl_feed put_def
      map_replicate_const)

lemma args_fields [simp]:
  "work (parallel_args wk data E c) = wk"
  "format_meter (parallel_args wk data E c) = env_format_meter E"
  "in_time (parallel_args wk data E c) = env_in_time E"
  "length_arg (parallel_args wk data E c) = int (length data)"
  "start (parallel_args wk data E c) = time_start E"
  "col (parallel_args wk data E c) = c"
  by (simp_all add: parallel_args_def)

lemma in_flight_none: "\<forall>p \<in> set ps. item_of p = {#} \<Longrightarrow> in_flight ps = {#}"
  unfolding in_flight_def by (induction ps) simp_all

lemma sum_list_none: "\<forall>p \<in> set ps. f p = (0::nat) \<Longrightarrow> sum_list (map f ps) = 0"
  by (induction ps) simp_all

lemma sum_rank_idle: "sum_list (map rank (replicate n Get)) = n"
  by (induction n) simp_all

lemma not_busy: "\<forall>p \<in> set ps. \<not> in_cs p \<Longrightarrow> \<not> busy ps"
  unfolding busy_def by auto

lemma gate_inv_init: "gate_inv (parallel_init wk data k E c)"
  by (simp add: gate_inv_def solo_def not_busy cells_ok_def counter_def)

lemma items_init: "items (parallel_init wk data k E c) = mset (filter (picklable E) data)"
  by (simp add: items_def in_flight_none)

lemma echo_init: "echo_inv (parallel_args wk data E c) (parallel_init wk data k E c)"
  by (simp add: echo_inv_def)

lemma ok_inv_init: "ok_inv (parallel_init wk data k E c)"
  by (simp add: ok_inv_def sum_list_none)

lemma mu_init:
  "mu (parallel_init wk data k E c) = 7 * length (filter (picklable E) data) + nat k"
  using sum_rank_idle [of "nat k"] by (simp add: mu_def)

lemma reach_gate: "gate_inv (parallel_run wk data k E c sch)"
  unfolding parallel_run_def
  by (rule run_invariant [where P = gate_inv]) (auto intro: gate_inv_init gate_inv_step)

lemma reach_items: "items (parallel_run wk data k E c sch) = mset (filter (picklable E) data)"
  unfolding parallel_run_def
  by (rule run_invariant [where P = "\<lambda>s. items s = mset (filter (picklable E) data)"])
     (auto simp: items_init items_step)

lemma reach_echo: "echo_inv (parallel_args wk data E c) (parallel_run wk data k E c sch)"
  unfolding parallel_run_def
  by (rule run_invariant [where P = "echo_inv (parallel_args wk data E c)"])
     (auto intro: echo_init echo_step)

lemma reach_length: "length (procs (parallel_run wk data k E c sch)) = nat k"
  unfolding parallel_run_def
  by (rule run_invariant [where P = "\<lambda>s. length (procs s) = nat k"])
     (auto simp: length_procs_step)

lemma reach_ok:
  assumes su: "succeeds wk (nat k) (filter (picklable E) data)"
    and pu: "punctual (env_in_time E) (nat k) (filter (picklable E) data)"
  shows "ok_inv (parallel_run wk data k E c sch)"
proof -
  let ?A = "parallel_args wk data E c"
  let ?d = "filter (picklable E) data"
  let ?P = "\<lambda>s. ok_inv s \<and> gate_inv s \<and> items s = mset ?d \<and> length (procs s) = nat k"
  have "?P (run ?A (parallel_init wk data k E c) sch)"
  proof (rule run_invariant [where P = ?P])
    show "?P (parallel_init wk data k E c)"
      by (simp add: ok_inv_init gate_inv_init items_init)
  next
    fix s i now s'
    assume P: "?P s" and w: "worker ?A i now s = Some s'"
    from P su have su': "succeeds (work ?A) (length (procs s)) ?d" by simp
    from P pu have pu': "punctual (in_time ?A) (length (procs s)) ?d" by simp
    from P have "ok_inv s" "gate_inv s" "items s = mset ?d" by simp_all
    from this su' pu' w have "ok_inv s'" by (rule ok_inv_step)
    with P w show "?P s'"
      by (auto simp: items_step length_procs_step intro: gate_inv_step)
  qed
  then show ?thesis by (simp add: parallel_run_def)
qed

lemma reach_moves:
  "moves (parallel_args wk data E c) (parallel_init wk data k E c) sch \<le> 7 * length data + nat k"
proof -
  have "7 * length (filter (picklable E) data) \<le> 7 * length data" by simp
  moreover have "moves (parallel_args wk data E c) (parallel_init wk data k E c) sch
      \<le> 7 * length (filter (picklable E) data) + nat k"
    using moves_bound [of "parallel_args wk data E c" "parallel_init wk data k E c" sch]
    by (simp add: mu_init)
  ultimately show ?thesis by linarith
qed

subsection \<open>The state when \<^verbatim>\<open>parallel\<close> returns\<close>

lemma only_returned:
  assumes "joined s" and "ok_inv s"
  shows "\<forall>p \<in> set (procs s). p = Returned"
proof
  fix p assume p: "p \<in> set (procs s)"
  with assms have "ended p" "\<not> crashed p"
    by (auto simp: joined_def list_all_iff ok_inv_def)
  then show "p = Returned" by (cases p) simp_all
qed

lemma final_state:
  assumes j: "joined s" and ok: "ok_inv s" and g: "gate_inv s" and it: "items s = mset data"
    and ne: "procs s \<noteq> []"
  shows "src s = []" and "shared s = [int (length data)]" and "\<not> lock s"
    and "mset (map snd (calls s)) = mset data" and "length (meters s) = Suc (length data)"
proof -
  from j ok have ret: "\<forall>p \<in> set (procs s). p = Returned" by (rule only_returned)
  with ne have "Returned \<in> set (procs s)" by (cases "procs s") auto
  with ok show src: "src s = []" by (simp add: ok_inv_def)
  from ret have fl: "in_flight (procs s) = {#}" by (intro in_flight_none) auto
  from src fl it show cl: "mset (map snd (calls s)) = mset data" by (simp add: items_def)
  then have "length (calls s) = length data"
    by (metis length_map size_mset)
  moreover from ret have "sum_list (map pending (procs s)) = 0" by (intro sum_list_none) auto
  ultimately show len: "length (meters s) = Suc (length data)" using ok by (simp add: ok_inv_def)
  from ret have "\<not> busy (procs s)" by (intro not_busy) auto
  with g show "\<not> lock s" by (simp add: gate_inv_def)
  with g len show "shared s = [int (length data)]" by (simp add: gate_inv_def counter_def)
qed

lemma console_col_Inr:
  "console_col p = Inr (case p of NoProbe \<Rightarrow> 10 | Shape None rows \<Rightarrow> 10 | Shape (Some cols) rows \<Rightarrow> cols div 2)"
  by (cases p rule: try_col.cases) (simp_all add: console_col_def)

lemma parallel_SomeD:
  assumes "parallel wk data k E sch = Some r"
  obtains c where "console_col (screen_shape E) = Inr c"
    and "joined (parallel_run wk data k E c sch)"
    and "r = Inr ((parallel_run wk data k E c sch)\<lparr>stderr := stderr (parallel_run wk data k E c sch) @ [[CHR 0x0A]]\<rparr>)"
  using assms console_col_Inr [of "screen_shape E"]
  by (auto simp: parallel_def Let_def split: if_splits)

lemma parallel_completes: "\<exists>sch' s. parallel wk data k E (sch @ sch') = Some (Inr s)"
proof -
  obtain c where c: "console_col (screen_shape E) = Inr c"
    using console_col_Inr by blast
  let ?A = "parallel_args wk data E c"
  from completes [OF reach_gate, where A = ?A]
  obtain sch' where "joined (run ?A (parallel_run wk data k E c sch) sch')" by blast
  then have "joined (parallel_run wk data k E c (sch @ sch'))"
    by (simp add: parallel_run_def run_append)
  with c have "\<exists>s. parallel wk data k E (sch @ sch') = Some (Inr s)"
    by (simp add: parallel_def Let_def)
  then show ?thesis by blast
qed

text \<open>
  What the runs without the two failures give. When \<^verbatim>\<open>work\<close> returns normally on the
  items that can be pickled and no \<^verbatim>\<open>get\<close> of such an item is late, \<^verbatim>\<open>parallel\<close>
  with at least one worker returns with the queue empty, each of these items worked on
  once, and their number in the counter cell.
\<close>

lemma parallel_final:
  assumes k: "1 \<le> k" and su: "succeeds wk (nat k) (filter (picklable E) data)"
    and pu: "punctual (env_in_time E) (nat k) (filter (picklable E) data)"
    and p: "parallel wk data k E sch = Some (Inr s)"
  shows "src s = []" and "shared s = [int (length (filter (picklable E) data))]" and "\<not> lock s"
    and "mset (map snd (calls s)) = mset (filter (picklable E) data)"
    and "length (meters s) = Suc (length (filter (picklable E) data))"
proof -
  from p obtain c where j: "joined (parallel_run wk data k E c sch)"
    and s: "s = (parallel_run wk data k E c sch)\<lparr>stderr := stderr (parallel_run wk data k E c sch) @ [[CHR 0x0A]]\<rparr>"
    by (auto elim: parallel_SomeD)
  let ?s = "parallel_run wk data k E c sch"
  from k have "procs ?s \<noteq> []" using reach_length [of wk data k E c sch] by auto
  note fin = final_state [OF j reach_ok [OF su pu] reach_gate reach_items this]
  from fin s show "src s = []" and "shared s = [int (length (filter (picklable E) data))]"
    and "\<not> lock s" and "mset (map snd (calls s)) = mset (filter (picklable E) data)"
    and "length (meters s) = Suc (length (filter (picklable E) data))"
    by simp_all
qed

text \<open>
  In every run, no item is worked on more often than it occurs in the list, and the
  counts given to \<^verbatim>\<open>format_meter\<close> are \<open>0, 1, 2, \<dots>\<close> without a gap, each written
  to \<^verbatim>\<open>stderr\<close> as one line.
\<close>

lemma reach_calls_sub: "mset (map snd (calls (parallel_run wk data k E c sch))) \<subseteq># mset data"
proof -
  have "mset (map snd (calls (parallel_run wk data k E c sch))) \<subseteq># items (parallel_run wk data k E c sch)"
    by (simp add: items_def)
  also have "\<dots> \<subseteq># mset data" by (simp add: reach_items)
  finally show ?thesis .
qed

lemma parallel_echo:
  assumes "parallel wk data k E sch = Some (Inr s)"
  shows "stderr s = map (line_of (env_format_meter E)) (meters s) @ [[CHR 0x0A]]"
    and "map fst (meters s) = map int [0..<length (meters s)]"
proof -
  from assms obtain c where
    s: "s = (parallel_run wk data k E c sch)\<lparr>stderr := stderr (parallel_run wk data k E c sch) @ [[CHR 0x0A]]\<rparr>"
    by (auto elim: parallel_SomeD)
  from reach_echo [of wk data E c k sch] s
  show "stderr s = map (line_of (env_format_meter E)) (meters s) @ [[CHR 0x0A]]"
    by (simp add: echo_inv_def)
  from reach_gate [of wk data k E c sch] s
  show "map fst (meters s) = map int [0..<length (meters s)]"
    by (simp add: gate_inv_def)
qed

subsection \<open>The critical section, step by step\<close>

lemma critical_section:
  assumes i: "i < length (procs s)" and pc: "procs s ! i = Acquire" and lk: "\<not> lock s"
    and sh: "shared s = [n]"
  shows "run A s [(i, t1)] = goto i SharedGet (s\<lparr>lock := True\<rparr>)"
    and "run A s [(i, t1), (i, t2)] = goto i (Write (n + 1)) (s\<lparr>shared := [], lock := True\<rparr>)"
    and "run A s [(i, t1), (i, t2), (i, t3)] =
           goto i (Put (n + 1))
             (s\<lparr>shared := [], lock := True,
                stderr := stderr s @ [meter_line A (n + 1) (t3 - start A)],
                meters := meters s @ [(n + 1, length_arg A, t3 - start A, col A)]\<rparr>)"
    and "run A s [(i, t1), (i, t2), (i, t3), (i, t4)] =
           goto i Release
             (s\<lparr>shared := [n + 1], lock := True,
                stderr := stderr s @ [meter_line A (n + 1) (t3 - start A)],
                meters := meters s @ [(n + 1, length_arg A, t3 - start A, col A)]\<rparr>)"
    and "run A s [(i, t1), (i, t2), (i, t3), (i, t4), (i, t5)] =
           goto i Get
             (s\<lparr>shared := [n + 1], lock := False,
                stderr := stderr s @ [meter_line A (n + 1) (t3 - start A)],
                meters := meters s @ [(n + 1, length_arg A, t3 - start A, col A)]\<rparr>)"
  using assms by (simp_all add: worker_def goto_def put_def)

lemma outside_steps:
  assumes g: "gate_inv s" and i: "i < length (procs s)" and cs: "in_cs (procs s ! i)"
    and ji: "j \<noteq> i" and w: "worker A j now s = Some s'"
  shows "shared s' = shared s \<and> stderr s' = stderr s \<and> meters s' = meters s \<and> lock s'
    \<and> procs s' ! i = procs s ! i"
proof -
  from g i cs have lk: "lock s" by (auto simp: gate_inv_def busy_nth)
  from g i cs ji have out: "j < length (procs s) \<Longrightarrow> \<not> in_cs (procs s ! j)"
    by (auto simp: gate_inv_def solo_def)
  from w show ?thesis
    by (cases rule: worker_elims) (use lk out ji i in \<open>auto simp: nth_upd\<close>)
qed


lemma cell_shape:
  assumes g: "gate_inv s" and i: "i < length (procs s)"
  shows "procs s ! i = SharedGet \<or> procs s ! i = Release \<Longrightarrow> shared s = [counter s]"
    and "procs s ! i = Write v \<or> procs s ! i = Put v \<Longrightarrow> shared s = []"
  using cells_ok_nth [of "shared s" "counter s" "procs s" i] g i
  by (auto simp: gate_inv_def)

lemma cell_small:
  assumes g: "gate_inv s"
  shows "length (shared s) \<le> 1"
proof (cases "lock s")
  case False
  with g show ?thesis by (simp add: gate_inv_def)
next
  case True
  with g obtain i where i: "i < length (procs s)" and cs: "in_cs (procs s ! i)"
    by (auto simp: gate_inv_def busy_def)
  from cs cell_shape [OF g i] show ?thesis
    by (cases "procs s ! i") auto
qed

subsection \<open>One worker\<close>

text \<open>
  With one worker the calls of \<^verbatim>\<open>work\<close> are made in the order of the queue: at
  every moment they are an initial part of the calls that the sequential loop makes on
  the items that could be pickled. They need not be all of them: the worker ends at a
  \<^verbatim>\<open>get\<close> that is late.
\<close>

lemma seq_inv_step:
  assumes sq: "seq_inv (work A) data s" and w: "worker A i now s = Some s'"
    and wk: "work A = wk"
  shows "seq_inv wk data s'"
proof -
  from sq obtain p rest where p: "procs s = [p]"
    and eq: "sequential (work A) data = calls s @ rest"
    and nr: "\<not> ended p \<Longrightarrow> rest = to_call (work A) (src s) p"
    by (auto simp: seq_inv_def)
  from w p have i: "i = 0" and w0: "worker_at A 0 now s p = Some s'"
    by (auto simp: worker_def split: if_splits)
  from w0 have live: "\<not> ended p" by (cases p) auto
  from nr [OF live] eq have eq': "sequential (work A) data = calls s @ to_call (work A) (src s) p"
    by simp
  from w show ?thesis
    by (cases rule: worker_elims) (use p i eq' wk in \<open>auto simp: seq_inv_def\<close>)
qed

lemma reach_seq: "seq_inv wk (filter (picklable E) data) (parallel_run wk data 1 E c sch)"
proof -
  let ?A = "parallel_args wk data E c"
  let ?P = "seq_inv wk (filter (picklable E) data)"
  have "?P (run ?A (parallel_init wk data 1 E c) sch)"
  proof (rule run_invariant [where P = ?P])
    show "?P (parallel_init wk data 1 E c)"
      by (simp add: seq_inv_def)
  next
    fix s i now s'
    assume P: "?P s" and w: "worker ?A i now s = Some s'"
    from P have "seq_inv (work ?A) (filter (picklable E) data) s" by simp
    from this w show "?P s'" by (rule seq_inv_step) simp
  qed
  then show ?thesis by (simp add: parallel_run_def)
qed

lemma single_worker_prefix:
  "prefix (calls (parallel_run wk data 1 E c sch)) (sequential wk (filter (picklable E) data))"
  using reach_seq [of wk E data c sch] by (auto simp: seq_inv_def)

subsection \<open>No worker, no item\<close>

lemma run_no_workers: "procs s = [] \<Longrightarrow> run A s sch = s"
  by (induction sch) (auto simp: worker_def)

lemma parallel_never_raises: "parallel wk data k E sch \<noteq> Some (Inl e)"
  using console_col_Inr [of "screen_shape E"]
  by (auto simp: parallel_def Let_def)

lemma all_same: "\<forall>p \<in> set ps. p = x \<Longrightarrow> ps = replicate (length ps) x"
  by (induction ps) simp_all

lemma empty_step:
  assumes P: "src s = [] \<and> calls s = [] \<and> shared s = sh \<and> \<not> lock s \<and> stderr s = er
      \<and> meters s = ms \<and> (\<forall>p \<in> set (procs s). p = Get \<or> p = Returned)"
    and w: "worker A i now s = Some s'"
  shows "src s' = [] \<and> calls s' = [] \<and> shared s' = sh \<and> \<not> lock s' \<and> stderr s' = er
      \<and> meters s' = ms \<and> (\<forall>p \<in> set (procs s'). p = Get \<or> p = Returned)"
proof -
  have pc: "i < length (procs s) \<Longrightarrow> procs s ! i = Get \<or> procs s ! i = Returned"
    using P by (auto simp: all_set_conv_all_nth)
  from w show ?thesis
    by (cases rule: worker_elims) (use P pc in \<open>auto dest!: set_upd_cases\<close>)
qed

lemma reach_empty:
  "src (parallel_run wk [] k E c sch) = []
    \<and> calls (parallel_run wk [] k E c sch) = []
    \<and> shared (parallel_run wk [] k E c sch) = [0]
    \<and> \<not> lock (parallel_run wk [] k E c sch)
    \<and> stderr (parallel_run wk [] k E c sch) = [env_format_meter E 0 0 (time_first E - time_start E) c @ [CHR 0x0D]]
    \<and> meters (parallel_run wk [] k E c sch) = [(0, 0, time_first E - time_start E, c)]
    \<and> (\<forall>p \<in> set (procs (parallel_run wk [] k E c sch)). p = Get \<or> p = Returned)"
  unfolding parallel_run_def
  by (rule run_invariant
      [where P = "\<lambda>s. src s = [] \<and> calls s = [] \<and> shared s = [0] \<and> \<not> lock s
        \<and> stderr s = [env_format_meter E 0 0 (time_first E - time_start E) c @ [CHR 0x0D]]
        \<and> meters s = [(0, 0, time_first E - time_start E, c)]
        \<and> (\<forall>p \<in> set (procs s). p = Get \<or> p = Returned)"])
     (simp, rule empty_step)

subsection \<open>A call that raises\<close>

text \<open>
  A call of \<^verbatim>\<open>work\<close> that raises: the call is made once, the worker ends, by the
  handler when the exception is \<^verbatim>\<open>Empty\<close> and by the exception otherwise; the item
  does not go back to the queue and the lock is not touched.
\<close>

lemma work_raises:
  assumes i: "i < length (procs s)" and pc: "procs s ! i = Work x" and e: "work A i x = Some e"
  shows "worker A i now s =
      Some (goto i (if e = Empty then Returned else Raised e) (s\<lparr>calls := calls s @ [(i, x)]\<rparr>))"
  using assms by (simp add: worker_def)

section \<open>The claims\<close>

subsection \<open>C1: the counter at the end\<close>

text \<open>
  Claim C1 at a failing input. One item that takes more than 0.2 seconds to reach the
  worker, one worker, a \<^verbatim>\<open>work\<close> that always returns: \<^verbatim>\<open>src.get(timeout=0.2)\<close>
  raises \<^verbatim>\<open>Empty\<close> with the item still on its way, the handler that is meant for the
  queue with nothing left returns, and \<^verbatim>\<open>parallel\<close> returns normally with the item
  still in the queue, \<^verbatim>\<open>work\<close> never called and \<open>0\<close> in the counter cell, not \<open>1\<close>.
  And of three items of which the second cannot be pickled, with two workers, two
  arrive and the counter ends at \<open>2\<close>, not \<open>3\<close>.
\<close>

theorem C1_counter_stops_short:
  "parallel always_ok [10] 1 (late_env 10) [(0, 101)] =
     Some (Inr \<lparr>src = [10], shared = [0], lock = False, stderr = [[CHR 0x0D], [CHR 0x0A]],
       procs = [Returned], calls = [], meters = [(0, 1, 0, 40)]\<rparr>)
   \<and> parallel always_ok [10, 20, 30] 2 (lossy_env 20) (concat (replicate 12 [(0, 101), (1, 103)])) =
     Some (Inr \<lparr>src = [], shared = [2], lock = False,
       stderr = [[CHR 0x0D], [CHR ''#'', CHR 0x0D], [CHR ''#'', CHR ''#'', CHR 0x0D], [CHR 0x0A]],
       procs = [Returned, Returned], calls = [(0, 10), (1, 30)],
       meters = [(0, 3, 0, 40), (1, 3, 1, 40), (2, 3, 3, 40)]\<rparr>)"
  by code_simp

subsection \<open>C2: the items given to \<^verbatim>\<open>work\<close>\<close>

text \<open>
  Claim C2 at a failing input. Three items of which the second takes more than 0.2
  seconds to reach a worker, two workers, a \<^verbatim>\<open>work\<close> that always returns: the first
  worker takes the first item; the \<^verbatim>\<open>get\<close> of the second worker raises \<^verbatim>\<open>Empty\<close>
  and the worker returns; the first worker finishes its item, and its next \<^verbatim>\<open>get\<close>
  raises \<^verbatim>\<open>Empty\<close> in the same way. \<^verbatim>\<open>parallel\<close> returns normally with the second
  and the third item still in the queue: \<^verbatim>\<open>work\<close> has been called on them zero
  times.
\<close>

theorem C2_items_left_unworked:
  "parallel always_ok [10, 20, 30] 2 (late_env 20) ([(0, 101), (1, 101)] @ replicate 7 (0, 102)) =
     Some (Inr \<lparr>src = [20, 30], shared = [1], lock = False,
       stderr = [[CHR 0x0D], [CHR ''#'', CHR 0x0D], [CHR 0x0A]],
       procs = [Returned, Returned], calls = [(0, 10)],
       meters = [(0, 3, 0, 40), (1, 3, 2, 40)]\<rparr>)"
  by code_simp

subsection \<open>C3: the empty list\<close>

text \<open>
  Claim C3, as the code has it. \<^verbatim>\<open>parallel\<close> has no branch for the empty list.
  Called with it, it writes the first line, for the count \<open>0\<close> of \<open>0\<close> items, and
  creates its \<open>process_cnt\<close> workers as for any other list; with a worker created it
  has not returned before the workers have moved; each worker finds the queue empty at
  its first step and returns, having called \<^verbatim>\<open>work\<close> on nothing and written nothing;
  whenever \<^verbatim>\<open>parallel\<close> has returned it has raised nothing, \<^verbatim>\<open>stderr\<close> holds the
  first line and the newline and nothing else, and the counter cell holds \<open>0\<close>; every
  schedule can be continued to one under which \<^verbatim>\<open>parallel\<close> returns, and the workers
  make at most \<open>process_cnt\<close> steps in all, so the call neither waits forever nor runs
  forever. The only division of the module, by the constant \<open>2\<close>, is in
  \<open>try_col\<close>.
\<close>

theorem C3_empty_list:
  "procs (parallel_init wk [] process_cnt E c) = replicate (nat process_cnt) Get
   \<and> (0 < process_cnt \<longrightarrow> parallel wk [] process_cnt E [] = None)
   \<and> (\<forall>sch r. parallel wk [] process_cnt E sch = Some r \<longrightarrow>
        (\<exists>w s. console_col (screen_shape E) = Inr w \<and> r = Inr s
           \<and> stderr s = [env_format_meter E 0 0 (time_first E - time_start E) w @ [CHR 0x0D], [CHR 0x0A]]
           \<and> meters s = [(0, 0, time_first E - time_start E, w)]
           \<and> calls s = [] \<and> shared s = [0] \<and> \<not> lock s
           \<and> procs s = replicate (nat process_cnt) Returned))
   \<and> (\<forall>sch. \<exists>sch' s. parallel wk [] process_cnt E (sch @ sch') = Some (Inr s))
   \<and> (\<forall>sch. moves (parallel_args wk [] E c) (parallel_init wk [] process_cnt E c) sch
          \<le> nat process_cnt)"
proof (intro conjI allI impI)
  show "procs (parallel_init wk [] process_cnt E c) = replicate (nat process_cnt) Get" by simp
next
  assume "0 < process_cnt"
  then have "\<not> joined (parallel_init wk [] process_cnt E w)" for w
    by (cases "nat process_cnt") (simp_all add: joined_def)
  then show "parallel wk [] process_cnt E [] = None"
    using console_col_Inr [of "screen_shape E"]
    by (simp add: parallel_def parallel_run_def)
next
  fix sch r assume "parallel wk [] process_cnt E sch = Some r"
  then obtain w where w: "console_col (screen_shape E) = Inr w"
    and j: "joined (parallel_run wk [] process_cnt E w sch)"
    and r: "r = Inr ((parallel_run wk [] process_cnt E w sch)\<lparr>stderr := stderr (parallel_run wk [] process_cnt E w sch) @ [[CHR 0x0A]]\<rparr>)"
    by (rule parallel_SomeD)
  let ?s = "parallel_run wk [] process_cnt E w sch"
  note e = reach_empty [of wk process_cnt E w sch]
  have "\<forall>p \<in> set (procs ?s). p = Returned"
  proof
    fix p assume p: "p \<in> set (procs ?s)"
    with j have "ended p" by (simp add: joined_def list_all_iff)
    moreover from e p have "p = Get \<or> p = Returned" by blast
    ultimately show "p = Returned" by auto
  qed
  then have "procs ?s = replicate (length (procs ?s)) Returned" by (rule all_same)
  then have "procs ?s = replicate (nat process_cnt) Returned" by (simp add: reach_length)
  with w r e
  show "\<exists>w s. console_col (screen_shape E) = Inr w \<and> r = Inr s
           \<and> stderr s = [env_format_meter E 0 0 (time_first E - time_start E) w @ [CHR 0x0D], [CHR 0x0A]]
           \<and> meters s = [(0, 0, time_first E - time_start E, w)]
           \<and> calls s = [] \<and> shared s = [0] \<and> \<not> lock s
           \<and> procs s = replicate (nat process_cnt) Returned"
    by simp
next
  fix sch
  show "\<exists>sch' s. parallel wk [] process_cnt E (sch @ sch') = Some (Inr s)"
    by (rule parallel_completes)
next
  fix sch
  from reach_moves [of wk "[]" E c process_cnt sch]
  show "moves (parallel_args wk [] E c) (parallel_init wk [] process_cnt E c) sch \<le> nat process_cnt"
    by simp
qed

theorem C3_witness:
  "0 < (2::int) \<and> parallel always_ok [] 2 wide_env [] = None
   \<and> parallel always_ok [] 2 wide_env [(1, 101), (0, 105)] =
       Some (Inr \<lparr>src = [], shared = [0], lock = False, stderr = [[CHR 0x0D], [CHR 0x0A]],
         procs = [Returned, Returned], calls = [], meters = [(0, 0, 0, 40)]\<rparr>)"
proof -
  have h: "0 < (2::int)" by simp
  note t = C3_empty_list [where wk = always_ok and process_cnt = 2 and E = wide_env and c = 40]
  from t h have n: "parallel always_ok [] 2 wide_env [] = None" by blast
  have r: "parallel always_ok [] 2 wide_env [(1, 101), (0, 105)] =
       Some (Inr \<lparr>src = [], shared = [0], lock = False, stderr = [[CHR 0x0D], [CHR 0x0A]],
         procs = [Returned, Returned], calls = [], meters = [(0, 0, 0, 40)]\<rparr>)"
    by code_simp
  from h n r show ?thesis by simp
qed

text \<open>
  The claim as the specification words it fails: with the empty list and
  \<open>process_cnt = 2\<close>, two workers are created; \<^verbatim>\<open>parallel\<close> has not returned before
  they have moved; and the one line written is the line of the count \<open>0\<close> of \<open>0\<close>
  items.
\<close>

theorem C3_counterexample:
  "procs (parallel_init always_ok [] 2 wide_env 40) = [Get, Get]
   \<and> parallel always_ok [] 2 wide_env [] = None
   \<and> parallel always_ok [] 2 wide_env [(0, 101), (1, 101)] =
       Some (Inr \<lparr>src = [], shared = [0], lock = False, stderr = [[CHR 0x0D], [CHR 0x0A]],
         procs = [Returned, Returned], calls = [], meters = [(0, 0, 0, 40)]\<rparr>)"
  by code_simp

subsection \<open>C4: a failure of \<^verbatim>\<open>work\<close>\<close>

text \<open>
  Claim C4 at a failing input. \<^verbatim>\<open>work\<close> raises \<^verbatim>\<open>queue.Empty\<close> on the second of
  three items, one worker: the handler that is meant for the empty queue catches the
  exception, the worker returns as if all the data had been processed, and
  \<^verbatim>\<open>parallel\<close> returns normally with the third item still in the queue and the
  counter at \<open>1\<close>. The failure has not left the loop.
\<close>

theorem C4_empty_from_work_is_swallowed:
  "parallel (empty_on 20) [10, 20, 30] 1 wide_env (replicate 9 (0, 101)) =
     Some (Inr \<lparr>src = [30], shared = [1], lock = False,
       stderr = [[CHR 0x0D], [CHR ''#'', CHR 0x0D], [CHR 0x0A]],
       procs = [Returned], calls = [(0, 10), (0, 20)],
       meters = [(0, 3, 0, 40), (1, 3, 1, 40)]\<rparr>)"
  by code_simp

subsection \<open>C5: a progress update is one unit under the lock\<close>

text \<open>
  Claim C5. In every state that a run of \<^verbatim>\<open>parallel\<close> can reach, whatever the
  input and the schedule:
  \<^item> at most one worker is between its \<^verbatim>\<open>lock.acquire()\<close> and the end of its
    \<^verbatim>\<open>lock.release()\<close>, and the lock is held exactly when there is one;
  \<^item> when the lock is free, the cell \<^verbatim>\<open>shared\<close> holds one count;
  \<^item> a worker that stands before \<^verbatim>\<open>lock.acquire()\<close> while the lock is free and
    the cell holds the count \<open>n\<close> does, in its next five steps and in this order:
    take the lock; take \<open>n\<close> out of the cell and set \<^verbatim>\<open>new_id\<close> to \<open>n + 1\<close>; write
    to \<^verbatim>\<open>stderr\<close> the line that \<^verbatim>\<open>format_meter\<close> makes of \<open>n + 1\<close>, the number of
    items, the clock minus \<^verbatim>\<open>start\<close> and the width, followed by a carriage return;
    put \<open>n + 1\<close> into the cell; free the lock;
  \<^item> while a worker is inside, a step of any other worker changes neither the cell
    nor \<^verbatim>\<open>stderr\<close> nor the lock, nor where the worker inside stands.
\<close>

theorem C5_render_is_atomic:
  "let A = parallel_args wk data E c; s = parallel_run wk data process_cnt E c sch in
     (\<forall>i < length (procs s). \<forall>j < length (procs s).
        in_cs (procs s ! i) \<and> in_cs (procs s ! j) \<longrightarrow> i = j)
   \<and> (lock s \<longleftrightarrow> (\<exists>i < length (procs s). in_cs (procs s ! i)))
   \<and> (\<not> lock s \<longrightarrow> (\<exists>n. shared s = [n]))
   \<and> (\<forall>i n t1 t2 t3 t4 t5.
        i < length (procs s) \<and> procs s ! i = Acquire \<and> \<not> lock s \<and> shared s = [n] \<longrightarrow>
          run A s [(i, t1)] = goto i SharedGet (s\<lparr>lock := True\<rparr>)
        \<and> run A s [(i, t1), (i, t2)] = goto i (Write (n + 1)) (s\<lparr>shared := [], lock := True\<rparr>)
        \<and> run A s [(i, t1), (i, t2), (i, t3)] =
            goto i (Put (n + 1))
              (s\<lparr>shared := [], lock := True,
                 stderr := stderr s @
                   [env_format_meter E (n + 1) (int (length data)) (t3 - time_start E) c @ [CHR 0x0D]],
                 meters := meters s @ [(n + 1, int (length data), t3 - time_start E, c)]\<rparr>)
        \<and> run A s [(i, t1), (i, t2), (i, t3), (i, t4)] =
            goto i Release
              (s\<lparr>shared := [n + 1], lock := True,
                 stderr := stderr s @
                   [env_format_meter E (n + 1) (int (length data)) (t3 - time_start E) c @ [CHR 0x0D]],
                 meters := meters s @ [(n + 1, int (length data), t3 - time_start E, c)]\<rparr>)
        \<and> run A s [(i, t1), (i, t2), (i, t3), (i, t4), (i, t5)] =
            goto i Get
              (s\<lparr>shared := [n + 1], lock := False,
                 stderr := stderr s @
                   [env_format_meter E (n + 1) (int (length data)) (t3 - time_start E) c @ [CHR 0x0D]],
                 meters := meters s @ [(n + 1, int (length data), t3 - time_start E, c)]\<rparr>))
   \<and> (\<forall>i j now s'.
        i < length (procs s) \<and> in_cs (procs s ! i) \<and> j \<noteq> i \<and> worker A j now s = Some s' \<longrightarrow>
          shared s' = shared s \<and> stderr s' = stderr s \<and> meters s' = meters s \<and> lock s'
          \<and> procs s' ! i = procs s ! i)"
proof -
  let ?A = "parallel_args wk data E c"
  let ?s = "parallel_run wk data process_cnt E c sch"
  have g: "gate_inv ?s" by (rule reach_gate)
  have 1: "\<forall>i < length (procs ?s). \<forall>j < length (procs ?s).
        in_cs (procs ?s ! i) \<and> in_cs (procs ?s ! j) \<longrightarrow> i = j"
    using g by (simp add: gate_inv_def solo_def)
  have 2: "lock ?s \<longleftrightarrow> (\<exists>i < length (procs ?s). in_cs (procs ?s ! i))"
    using g by (simp add: gate_inv_def busy_def)
  have 3: "\<not> lock ?s \<longrightarrow> (\<exists>n. shared ?s = [n])"
    using g by (simp add: gate_inv_def)
  have 5: "\<forall>i j now s'.
        i < length (procs ?s) \<and> in_cs (procs ?s ! i) \<and> j \<noteq> i \<and> worker ?A j now ?s = Some s' \<longrightarrow>
          shared s' = shared ?s \<and> stderr s' = stderr ?s \<and> meters s' = meters ?s \<and> lock s'
          \<and> procs s' ! i = procs ?s ! i"
    using outside_steps [OF g] by blast
  have 4: "run ?A ?s [(i, t1)] = goto i SharedGet (?s\<lparr>lock := True\<rparr>)
        \<and> run ?A ?s [(i, t1), (i, t2)] = goto i (Write (n + 1)) (?s\<lparr>shared := [], lock := True\<rparr>)
        \<and> run ?A ?s [(i, t1), (i, t2), (i, t3)] =
            goto i (Put (n + 1))
              (?s\<lparr>shared := [], lock := True,
                 stderr := stderr ?s @
                   [env_format_meter E (n + 1) (int (length data)) (t3 - time_start E) c @ [CHR 0x0D]],
                 meters := meters ?s @ [(n + 1, int (length data), t3 - time_start E, c)]\<rparr>)
        \<and> run ?A ?s [(i, t1), (i, t2), (i, t3), (i, t4)] =
            goto i Release
              (?s\<lparr>shared := [n + 1], lock := True,
                 stderr := stderr ?s @
                   [env_format_meter E (n + 1) (int (length data)) (t3 - time_start E) c @ [CHR 0x0D]],
                 meters := meters ?s @ [(n + 1, int (length data), t3 - time_start E, c)]\<rparr>)
        \<and> run ?A ?s [(i, t1), (i, t2), (i, t3), (i, t4), (i, t5)] =
            goto i Get
              (?s\<lparr>shared := [n + 1], lock := False,
                 stderr := stderr ?s @
                   [env_format_meter E (n + 1) (int (length data)) (t3 - time_start E) c @ [CHR 0x0D]],
                 meters := meters ?s @ [(n + 1, int (length data), t3 - time_start E, c)]\<rparr>)"
    if "i < length (procs ?s) \<and> procs ?s ! i = Acquire \<and> \<not> lock ?s \<and> shared ?s = [n]"
    for i n t1 t2 t3 t4 t5
  proof -
    from that have a: "i < length (procs ?s)" "procs ?s ! i = Acquire" "\<not> lock ?s" "shared ?s = [n]"
      by simp_all
    note cs = critical_section [OF a, where A = ?A]
    show ?thesis
      by (intro conjI) (simp_all only: cs meter_line_def args_fields)
  qed
  from 1 2 3 4 5 show ?thesis
    unfolding Let_def by blast
qed


theorem C5_witness:
  "procs (parallel_run always_ok [10, 20] 2 wide_env 40 [(0, 101), (0, 101)]) ! 0 = Acquire
   \<and> \<not> lock (parallel_run always_ok [10, 20] 2 wide_env 40 [(0, 101), (0, 101)])
   \<and> shared (parallel_run always_ok [10, 20] 2 wide_env 40 [(0, 101), (0, 101)]) = [0]
   \<and> run (parallel_args always_ok [10, 20] wide_env 40)
         (parallel_run always_ok [10, 20] 2 wide_env 40 [(0, 101), (0, 101)])
         [(0, 102), (0, 103), (0, 104), (0, 105), (0, 106)] =
       \<lparr>src = [20], shared = [1], lock = False, stderr = [[CHR 0x0D], [CHR ''#'', CHR 0x0D]],
        procs = [Get, Get], calls = [(0, 10)], meters = [(0, 2, 0, 40), (1, 2, 4, 40)]\<rparr>"
proof -
  let ?s = "\<lparr>src = [20::int], shared = [0], lock = False, stderr = [[CHR 0x0D]],
        procs = [Acquire, Get], calls = [(0::nat, 10::int)], meters = [(0::int, 2::int, 0::int, 40::int)]\<rparr>"
  have s: "parallel_run always_ok [10, 20] 2 wide_env 40 [(0, 101), (0, 101)] = ?s"
    by code_simp
  have h: "0 < length (procs ?s) \<and> procs ?s ! 0 = Acquire \<and> \<not> lock ?s \<and> shared ?s = [0]"
    by simp
  note t = C5_render_is_atomic [where wk = always_ok and data = "[10, 20]" and E = wide_env
      and c = 40 and process_cnt = 2 and sch = "[(0, 101), (0, 101)]", unfolded Let_def s]
  from t h have "run (parallel_args always_ok [10, 20] wide_env 40) ?s
         [(0, 102), (0, 103), (0, 104), (0, 105), (0, 106)] =
      goto 0 Get
        (?s\<lparr>shared := [0 + 1], lock := False,
           stderr := stderr ?s @
             [env_format_meter wide_env (0 + 1) (int (length [10, 20::int])) (104 - time_start wide_env) 40 @ [CHR 0x0D]],
           meters := meters ?s @ [(0 + 1, int (length [10, 20::int]), 104 - time_start wide_env, 40)]\<rparr>)"
    by blast
  then have "run (parallel_args always_ok [10, 20] wide_env 40) ?s
         [(0, 102), (0, 103), (0, 104), (0, 105), (0, 106)] =
       \<lparr>src = [20], shared = [1], lock = False, stderr = [[CHR 0x0D], [CHR ''#'', CHR 0x0D]],
        procs = [Get, Get], calls = [(0, 10)], meters = [(0, 2, 0, 40), (1, 2, 4, 40)]\<rparr>"
    by (simp add: goto_def wide_env_def hashes_def)
  with h show ?thesis unfolding s by simp
qed

subsection \<open>C6: the counts given to the formatter\<close>

text \<open>
  Claim C6 at a failing input. Two items of which the second takes more than 0.2 seconds
  to reach the worker, one worker, a \<^verbatim>\<open>work\<close> that always returns: the counts given
  to \<^verbatim>\<open>format_meter\<close> are \<open>0\<close> and \<open>1\<close>, and \<^verbatim>\<open>parallel\<close> returns normally; the
  counts do not end at the number of items, \<open>2\<close>, and there is one call for the two
  items. And of three items of which the second cannot be pickled the counts are
  \<open>0\<close>, \<open>1\<close>, \<open>2\<close>, and do not end at \<open>3\<close>.
\<close>

theorem C6_counts_stop_short:
  "parallel always_ok [10, 20] 1 (late_env 20) (replicate 8 (0, 101)) =
     Some (Inr \<lparr>src = [20], shared = [1], lock = False,
       stderr = [[CHR 0x0D], [CHR ''#'', CHR 0x0D], [CHR 0x0A]],
       procs = [Returned], calls = [(0, 10)],
       meters = [(0, 2, 0, 40), (1, 2, 1, 40)]\<rparr>)
   \<and> parallel always_ok [10, 20, 30] 1 (lossy_env 20) (replicate 15 (0, 101)) =
     Some (Inr \<lparr>src = [], shared = [2], lock = False,
       stderr = [[CHR 0x0D], [CHR ''#'', CHR 0x0D], [CHR ''#'', CHR ''#'', CHR 0x0D], [CHR 0x0A]],
       procs = [Returned], calls = [(0, 10), (0, 30)],
       meters = [(0, 3, 0, 40), (1, 3, 1, 40), (2, 3, 1, 40)]\<rparr>)"
  by code_simp

subsection \<open>C7: no check of \<^verbatim>\<open>process_cnt\<close>\<close>

text \<open>
  Claim C7, as the code has it. \<^verbatim>\<open>parallel\<close> does not check \<open>process_cnt\<close> and
  raises for no input. With \<open>process_cnt \<le> 0\<close>, \<^verbatim>\<open>range(process_cnt)\<close> is empty:
  no worker is created, and \<^verbatim>\<open>parallel\<close> returns normally under every schedule,
  having written the first line and the newline, with every item that has reached the
  queue still in it and \<^verbatim>\<open>work\<close> never called.
\<close>

theorem C7_no_validation:
  "(\<forall>e. parallel wk data process_cnt E sch \<noteq> Some (Inl e))
   \<and> (process_cnt \<le> 0 \<longrightarrow>
        (\<exists>w. console_col (screen_shape E) = Inr w
           \<and> procs (parallel_init wk data process_cnt E w) = []
           \<and> parallel wk data process_cnt E sch =
               Some (Inr \<lparr>src = filter (picklable E) data, shared = [0], lock = False,
                 stderr = [env_format_meter E 0 (int (length data)) (time_first E - time_start E) w @ [CHR 0x0D],
                           [CHR 0x0A]],
                 procs = [], calls = [],
                 meters = [(0, int (length data), time_first E - time_start E, w)]\<rparr>)))"
proof (intro conjI allI impI)
  fix e show "parallel wk data process_cnt E sch \<noteq> Some (Inl e)"
    by (rule parallel_never_raises)
next
  assume k: "process_cnt \<le> 0"
  obtain w where w: "console_col (screen_shape E) = Inr w"
    using console_col_Inr by blast
  let ?s = "parallel_init wk data process_cnt E w"
  from k have p: "procs ?s = []" by simp
  then have "parallel_run wk data process_cnt E w sch = ?s"
    by (simp add: parallel_run_def run_no_workers)
  with w p have "parallel wk data process_cnt E sch = Some (Inr (?s\<lparr>stderr := stderr ?s @ [[CHR 0x0A]]\<rparr>))"
    by (simp add: parallel_def joined_def)
  also have "?s\<lparr>stderr := stderr ?s @ [[CHR 0x0A]]\<rparr> =
     \<lparr>src = filter (picklable E) data, shared = [0], lock = False,
       stderr = [env_format_meter E 0 (int (length data)) (time_first E - time_start E) w @ [CHR 0x0D],
                 [CHR 0x0A]],
       procs = [], calls = [],
       meters = [(0, int (length data), time_first E - time_start E, w)]\<rparr>"
    using k by (simp add: parallel_init_def parallel_args_def meter_line_def foldl_feed put_def)
  finally show "\<exists>w. console_col (screen_shape E) = Inr w
           \<and> procs (parallel_init wk data process_cnt E w) = []
           \<and> parallel wk data process_cnt E sch =
               Some (Inr \<lparr>src = filter (picklable E) data, shared = [0], lock = False,
                 stderr = [env_format_meter E 0 (int (length data)) (time_first E - time_start E) w @ [CHR 0x0D],
                           [CHR 0x0A]],
                 procs = [], calls = [],
                 meters = [(0, int (length data), time_first E - time_start E, w)]\<rparr>)"
    using w p by blast
qed

theorem C7_witness:
  "(0::int) \<le> 0 \<and> console_col (screen_shape wide_env) = Inr 40
   \<and> parallel always_ok [7, 8] 0 wide_env [(0, 101), (1, 102)] =
     Some (Inr \<lparr>src = [7, 8], shared = [0], lock = False, stderr = [[CHR 0x0D], [CHR 0x0A]],
       procs = [], calls = [], meters = [(0, 2, 0, 40)]\<rparr>)"
proof -
  have h: "(0::int) \<le> 0" by simp
  have c: "console_col (screen_shape wide_env) = Inr 40" by code_simp
  note t = C7_no_validation [where wk = always_ok and data = "[7, 8]" and process_cnt = 0
      and E = wide_env and sch = "[(0, 101), (1, 102)]"]
  from t h c have "parallel always_ok [7, 8] 0 wide_env [(0, 101), (1, 102)] =
     Some (Inr \<lparr>src = filter (picklable wide_env) [7, 8], shared = [0], lock = False,
       stderr = [env_format_meter wide_env 0 (int (length [7, 8::int])) (time_first wide_env - time_start wide_env) 40 @ [CHR 0x0D],
                 [CHR 0x0A]],
       procs = [], calls = [],
       meters = [(0, int (length [7, 8::int]), time_first wide_env - time_start wide_env, 40)]\<rparr>)"
    by auto
  then have "parallel always_ok [7, 8] 0 wide_env [(0, 101), (1, 102)] =
     Some (Inr \<lparr>src = [7, 8], shared = [0], lock = False, stderr = [[CHR 0x0D], [CHR 0x0A]],
       procs = [], calls = [], meters = [(0, 2, 0, 40)]\<rparr>)"
    by (simp add: wide_env_def hashes_def any_item_def)
  with h c show ?thesis by simp
qed

text \<open>
  The claim as the specification words it fails: with one item and \<open>process_cnt = 0\<close>,
  and with \<open>process_cnt = - 3\<close>, \<^verbatim>\<open>parallel\<close> returns normally and the item is
  still in the queue.
\<close>

theorem C7_counterexample:
  "parallel always_ok [7] 0 wide_env [] =
     Some (Inr \<lparr>src = [7], shared = [0], lock = False, stderr = [[CHR 0x0D], [CHR 0x0A]],
       procs = [], calls = [], meters = [(0, 1, 0, 40)]\<rparr>)
   \<and> parallel always_ok [7] (- 3) wide_env [(0, 101)] =
     Some (Inr \<lparr>src = [7], shared = [0], lock = False, stderr = [[CHR 0x0D], [CHR 0x0A]],
       procs = [], calls = [], meters = [(0, 1, 0, 40)]\<rparr>)"
  by code_simp

subsection \<open>C8: the width of the console\<close>

text \<open>
  Claim C8. When the width of the console cannot be determined, that is when
  \<^verbatim>\<open>_screen_shape_wrapper()\<close> has no function for the platform or the function
  answers \<^verbatim>\<open>None\<close> for the columns, the \<^verbatim>\<open>try\<close> raises \<^verbatim>\<open>TypeError\<close>, the
  handler sets \<^verbatim>\<open>col\<close> to \<open>10\<close>, and \<^verbatim>\<open>parallel\<close> goes on as with any other
  width: it raises nothing, it is the run with the width \<open>10\<close>, whose first line is
  made with \<open>10\<close>, and every schedule can be continued to one under which it returns.
\<close>

theorem C8_width_fallback:
  assumes "screen_shape E = NoProbe \<or> (\<exists>rows. screen_shape E = Shape None rows)"
  shows "try_col (screen_shape E) = Inl TypeError
    \<and> console_col (screen_shape E) = Inr 10
    \<and> (\<forall>e. parallel wk data process_cnt E sch \<noteq> Some (Inl e))
    \<and> parallel wk data process_cnt E sch =
        (if joined (parallel_run wk data process_cnt E 10 sch)
         then Some (Inr ((parallel_run wk data process_cnt E 10 sch)
                \<lparr>stderr := stderr (parallel_run wk data process_cnt E 10 sch) @ [[CHR 0x0A]]\<rparr>))
         else None)
    \<and> col (parallel_args wk data E 10) = 10
    \<and> meters (parallel_init wk data process_cnt E 10) =
        [(0, int (length data), time_first E - time_start E, 10)]
    \<and> (\<exists>sch' s. parallel wk data process_cnt E (sch @ sch') = Some (Inr s))"
proof -
  from assms have t: "try_col (screen_shape E) = Inl TypeError" by auto
  then have c: "console_col (screen_shape E) = Inr 10" by (simp add: console_col_def)
  from c have "parallel wk data process_cnt E sch =
        (if joined (parallel_run wk data process_cnt E 10 sch)
         then Some (Inr ((parallel_run wk data process_cnt E 10 sch)
                \<lparr>stderr := stderr (parallel_run wk data process_cnt E 10 sch) @ [[CHR 0x0A]]\<rparr>))
         else None)"
    by (simp add: parallel_def Let_def)
  with t c show ?thesis
    using parallel_never_raises [of wk data process_cnt E sch]
      parallel_completes [of wk data process_cnt E sch]
    by simp
qed

theorem C8_witness:
  "(screen_shape (wide_env\<lparr>screen_shape := Shape None None\<rparr>) = NoProbe
      \<or> screen_shape (wide_env\<lparr>screen_shape := Shape None None\<rparr>) = Shape None None)
   \<and> console_col (screen_shape (wide_env\<lparr>screen_shape := Shape None None\<rparr>)) = Inr 10
   \<and> parallel always_ok [10] 1 (wide_env\<lparr>screen_shape := Shape None None\<rparr>) (replicate 8 (0, 101)) =
       Some (Inr \<lparr>src = [], shared = [1], lock = False,
         stderr = [[CHR 0x0D], [CHR ''#'', CHR 0x0D], [CHR 0x0A]],
         procs = [Returned], calls = [(0, 10)], meters = [(0, 1, 0, 10), (1, 1, 1, 10)]\<rparr>)"
proof -
  let ?E = "wide_env\<lparr>screen_shape := Shape None None\<rparr>"
  have h: "screen_shape ?E = NoProbe \<or> (\<exists>rows. screen_shape ?E = Shape None rows)"
    by simp
  have r: "parallel always_ok [10] 1 ?E (replicate 8 (0, 101)) =
       Some (Inr \<lparr>src = [], shared = [1], lock = False,
         stderr = [[CHR 0x0D], [CHR ''#'', CHR 0x0D], [CHR 0x0A]],
         procs = [Returned], calls = [(0, 10)], meters = [(0, 1, 0, 10), (1, 1, 1, 10)]\<rparr>)"
    by code_simp
  from C8_width_fallback [OF h] have "console_col (screen_shape ?E) = Inr 10" by blast
  with r show ?thesis by simp
qed

subsection \<open>C9: one worker and the sequential loop\<close>

text \<open>
  Claim C9 at a failing input. Three items of which the first takes more than 0.2
  seconds to reach the worker, \<open>process_cnt = 1\<close>, a \<^verbatim>\<open>work\<close> that always returns: the
  sequential loop \<^verbatim>\<open>for x in data: work(0, x)\<close> makes three calls; the single worker
  makes none, its first \<^verbatim>\<open>get\<close> raises \<^verbatim>\<open>Empty\<close> and it returns, and \<^verbatim>\<open>parallel\<close>
  returns normally with the three items in the queue. And when the first item cannot
  be pickled the worker makes the calls for the second and the third only.
\<close>

theorem C9_single_worker_stops_early:
  "sequential always_ok [10, 20, 30] = [(0, 10), (0, 20), (0, 30)]
   \<and> parallel always_ok [10, 20, 30] 1 (late_env 10) [(0, 105)] =
     Some (Inr \<lparr>src = [10, 20, 30], shared = [0], lock = False,
       stderr = [[CHR 0x0D], [CHR 0x0A]],
       procs = [Returned], calls = [], meters = [(0, 3, 0, 40)]\<rparr>)
   \<and> parallel always_ok [10, 20, 30] 1 (lossy_env 10) (replicate 15 (0, 101)) =
     Some (Inr \<lparr>src = [], shared = [2], lock = False,
       stderr = [[CHR 0x0D], [CHR ''#'', CHR 0x0D], [CHR ''#'', CHR ''#'', CHR 0x0D], [CHR 0x0A]],
       procs = [Returned], calls = [(0, 20), (0, 30)],
       meters = [(0, 3, 0, 40), (1, 3, 1, 40), (2, 3, 1, 40)]\<rparr>)"
  by code_simp

subsection \<open>C10: the counter cell holds one value outside the critical section\<close>

text \<open>
  Claim C10. In every state that a run of \<^verbatim>\<open>parallel\<close> can reach, whatever the
  input and the schedule: the queue \<^verbatim>\<open>shared\<close> never holds two values; when the
  lock is free it holds exactly one; a worker that is about to read the cell or to free
  the lock holds the lock and finds one value, a worker between the reading and the
  \<^verbatim>\<open>put\<close> holds the lock and the cell is empty; and a worker that takes the free
  lock when the cell holds \<open>n\<close> empties the cell with its second step, has put back
  the one value \<open>n + 1\<close> with its fourth, the lock still held, and frees the lock with
  its fifth.
\<close>

theorem C10_counter_cell:
  "let A = parallel_args wk data E c; s = parallel_run wk data process_cnt E c sch in
     length (shared s) \<le> 1
   \<and> (\<not> lock s \<longrightarrow> length (shared s) = 1)
   \<and> (\<forall>i < length (procs s).
        (procs s ! i = SharedGet \<or> procs s ! i = Release \<longrightarrow> lock s \<and> length (shared s) = 1)
        \<and> (\<forall>v. procs s ! i = Write v \<or> procs s ! i = Put v \<longrightarrow> lock s \<and> shared s = []))
   \<and> (\<forall>i n t1 t2 t3 t4 t5.
        i < length (procs s) \<and> procs s ! i = Acquire \<and> \<not> lock s \<and> shared s = [n] \<longrightarrow>
          lock (run A s [(i, t1)]) \<and> shared (run A s [(i, t1)]) = [n]
        \<and> lock (run A s [(i, t1), (i, t2)]) \<and> shared (run A s [(i, t1), (i, t2)]) = []
        \<and> lock (run A s [(i, t1), (i, t2), (i, t3)])
        \<and> shared (run A s [(i, t1), (i, t2), (i, t3)]) = []
        \<and> lock (run A s [(i, t1), (i, t2), (i, t3), (i, t4)])
        \<and> shared (run A s [(i, t1), (i, t2), (i, t3), (i, t4)]) = [n + 1]
        \<and> \<not> lock (run A s [(i, t1), (i, t2), (i, t3), (i, t4), (i, t5)])
        \<and> shared (run A s [(i, t1), (i, t2), (i, t3), (i, t4), (i, t5)]) = [n + 1])"
proof -
  let ?A = "parallel_args wk data E c"
  let ?s = "parallel_run wk data process_cnt E c sch"
  have g: "gate_inv ?s" by (rule reach_gate)
  have 1: "length (shared ?s) \<le> 1" using g by (rule cell_small)
  have 2: "\<not> lock ?s \<longrightarrow> length (shared ?s) = 1"
    using g by (simp add: gate_inv_def)
  have 3: "(procs ?s ! i = SharedGet \<or> procs ?s ! i = Release \<longrightarrow> lock ?s \<and> length (shared ?s) = 1)
        \<and> (\<forall>v. procs ?s ! i = Write v \<or> procs ?s ! i = Put v \<longrightarrow> lock ?s \<and> shared ?s = [])"
    if i: "i < length (procs ?s)" for i
  proof -
    have "in_cs (procs ?s ! i) \<Longrightarrow> lock ?s"
      using g i by (auto simp: gate_inv_def busy_nth)
    with cell_shape [OF g i] show ?thesis by auto
  qed
  have 4: "lock (run ?A ?s [(i, t1)]) \<and> shared (run ?A ?s [(i, t1)]) = [n]
        \<and> lock (run ?A ?s [(i, t1), (i, t2)]) \<and> shared (run ?A ?s [(i, t1), (i, t2)]) = []
        \<and> lock (run ?A ?s [(i, t1), (i, t2), (i, t3)])
        \<and> shared (run ?A ?s [(i, t1), (i, t2), (i, t3)]) = []
        \<and> lock (run ?A ?s [(i, t1), (i, t2), (i, t3), (i, t4)])
        \<and> shared (run ?A ?s [(i, t1), (i, t2), (i, t3), (i, t4)]) = [n + 1]
        \<and> \<not> lock (run ?A ?s [(i, t1), (i, t2), (i, t3), (i, t4), (i, t5)])
        \<and> shared (run ?A ?s [(i, t1), (i, t2), (i, t3), (i, t4), (i, t5)]) = [n + 1]"
    if "i < length (procs ?s) \<and> procs ?s ! i = Acquire \<and> \<not> lock ?s \<and> shared ?s = [n]"
    for i n t1 t2 t3 t4 t5
  proof -
    from that have a: "i < length (procs ?s)" "procs ?s ! i = Acquire" "\<not> lock ?s" "shared ?s = [n]"
      by simp_all
    note cs = critical_section [OF a, where A = ?A]
    from a(4) show ?thesis
      by (simp only: cs) simp
  qed
  from 1 2 3 4 show ?thesis
    unfolding Let_def by blast
qed

theorem C10_witness:
  "\<not> lock (parallel_run always_ok [10, 20] 2 wide_env 40 [(1, 101), (1, 101), (0, 101)])
   \<and> length (shared (parallel_run always_ok [10, 20] 2 wide_env 40 [(1, 101), (1, 101), (0, 101)])) = 1
   \<and> procs (parallel_run always_ok [10, 20] 2 wide_env 40 [(1, 101), (1, 101), (0, 101)]) ! 1 = Acquire
   \<and> shared (run (parallel_args always_ok [10, 20] wide_env 40)
         (parallel_run always_ok [10, 20] 2 wide_env 40 [(1, 101), (1, 101), (0, 101)])
         [(1, 102), (1, 103), (1, 104), (1, 105)]) = [1]
   \<and> lock (run (parallel_args always_ok [10, 20] wide_env 40)
         (parallel_run always_ok [10, 20] 2 wide_env 40 [(1, 101), (1, 101), (0, 101)])
         [(1, 102), (1, 103), (1, 104), (1, 105)])"
proof -
  let ?s = "\<lparr>src = [], shared = [0], lock = False, stderr = [[CHR 0x0D]],
        procs = [Work 20, Acquire], calls = [(1::nat, 10::int)], meters = [(0::int, 2::int, 0::int, 40::int)]\<rparr>"
  have s: "parallel_run always_ok [10, 20] 2 wide_env 40 [(1, 101), (1, 101), (0, 101)] = ?s"
    by code_simp
  have h: "1 < length (procs ?s) \<and> procs ?s ! 1 = Acquire \<and> \<not> lock ?s \<and> shared ?s = [0]"
    by simp
  note t = C10_counter_cell [where wk = always_ok and data = "[10, 20]" and E = wide_env
      and c = 40 and process_cnt = 2 and sch = "[(1, 101), (1, 101), (0, 101)]", unfolded Let_def s]
  from t h have "lock (run (parallel_args always_ok [10, 20] wide_env 40) ?s [(1, 102), (1, 103), (1, 104), (1, 105)])
     \<and> shared (run (parallel_args always_ok [10, 20] wide_env 40) ?s [(1, 102), (1, 103), (1, 104), (1, 105)]) = [0 + 1]"
    by blast
  moreover from t have "\<not> lock ?s \<longrightarrow> length (shared ?s) = 1" by blast
  ultimately show ?thesis using h unfolding s by simp
qed

end
